theory Spec2Isabelle
  imports Main "HOL-Library.Multiset"
begin

section \<open>Data model of \<^verbatim>\<open>submap.c\<close> and \<^verbatim>\<open>matrix.c\<close>\<close>

text \<open>
  An \<^verbatim>\<open>Edge\<close> is a pair of C \<^verbatim>\<open>int\<close> indices into the block sequence of a submap.
  A \<^verbatim>\<open>Vertex\<close> (a block) is an \<^verbatim>\<open>array_int\<close> of original vertex labels, a
  \<^verbatim>\<open>Submap\<close> the pair of an \<^verbatim>\<open>array_vertex\<close> and an \<^verbatim>\<open>array_edge\<close>.
  The growable arrays of \<^verbatim>\<open>array.h\<close> are lists; \<^verbatim>\<open>array_add\<close> appends at the end.
  Allocation is taken to succeed (on failure \<^verbatim>\<open>array_add\<close> only raises the
  \<^verbatim>\<open>oom\<close> flag, which no caller reads).
\<close>

record Edge =
  start_idx :: int
  end_idx :: int

type_synonym Vertex = "int list"

record Submap =
  vertices :: "Vertex list"
  edges :: "Edge list"

text \<open>
  \<^verbatim>\<open>WYMatrix\<close>: a size and a pointer to rows of entries. The entries are a function
  of the row and column index; only indices below the size are ever read or written.
  The entry type is any commutative ring with 1: the integers for exact arithmetic,
  or a machine word for C's \<^verbatim>\<open>int\<close> on a platform where it wraps around.
\<close>

record 'a WYMatrix =
  size_m :: nat
  entries :: "nat \<Rightarrow> nat \<Rightarrow> 'a"

text \<open>
  The globals of \<^verbatim>\<open>submap.c\<close>. The flag \<^verbatim>\<open>graph_changed\<close> is written by the
  editor thread at any time, so it is not a field: every read of it by the worker
  takes the next reading of a signal, a function from the number of earlier reads
  (\<open>polls\<close>) to the value read.
\<close>

type_synonym signal = "nat \<Rightarrow> bool"

record state =
  all_submaps :: "Submap list"
  stop_flag :: bool
  cur_submap_count :: nat
  cur_matrix_rows_count :: nat
  polls :: nat

section \<open>Equality of arrays (\<^verbatim>\<open>array.h\<close>) and of submaps\<close>

text \<open>
  The macro \<^verbatim>\<open>array_eq\<close> is false when the sizes differ; otherwise it runs over all
  indices and clears its result wherever \<^verbatim>\<open>cmp\<close> fails. \<^verbatim>\<open>array_contains\<close> sets
  its result at every element that \<^verbatim>\<open>T_eq\<close> finds equal to the one looked for.
\<close>

definition array_eq :: "('a \<Rightarrow> 'a \<Rightarrow> bool) \<Rightarrow> 'a list \<Rightarrow> 'a list \<Rightarrow> bool" where
  "array_eq cmp a1 a2 =
     (if length a1 \<noteq> length a2 then False
      else fold (\<lambda>i result. if cmp (a1 ! i) (a2 ! i) then result else False)
             [0..<length a1] True)"

definition array_contains :: "('a \<Rightarrow> 'a \<Rightarrow> bool) \<Rightarrow> 'a list \<Rightarrow> 'a \<Rightarrow> bool" where
  "array_contains T_eq a i = fold (\<lambda>l result. if T_eq l i then True else result) a False"

definition int_eq :: "int \<Rightarrow> int \<Rightarrow> bool" where
  "int_eq a b = (a = b)"

definition vertex_eq :: "Vertex \<Rightarrow> Vertex \<Rightarrow> bool" where
  "vertex_eq v1 v2 = array_eq int_eq v1 v2"

definition edge_eq :: "Edge \<Rightarrow> Edge \<Rightarrow> bool" where
  "edge_eq e1 e2 = (start_idx e1 = start_idx e2 \<and> end_idx e1 = end_idx e2)"

definition submap_eq :: "Submap \<Rightarrow> Submap \<Rightarrow> bool" where
  "submap_eq s1 s2 =
     (array_eq vertex_eq (vertices s1) (vertices s2) \<and> array_eq edge_eq (edges s1) (edges s2))"

section \<open>Edge contraction: \<^verbatim>\<open>get_direct_submaps\<close>\<close>

text \<open>
  The loop over the blocks. Block \<open>k = i\<close> becomes the sorted concatenation of blocks
  \<open>i\<close> and \<open>j\<close> (\<^verbatim>\<open>qsort\<close> with \<^verbatim>\<open>cmp\<close>), block \<open>k = j\<close> is skipped, every other
  block is copied. The read \<^verbatim>\<open>array_at(&submap->vertices, j)\<close> is out of range when
  \<open>j\<close> is not below the number of blocks: the result is then \<open>None\<close>.
  The index \<open>k\<close> is a \<^verbatim>\<open>size_t\<close>; a negative \<open>i\<close> or \<open>j\<close> equals no \<open>k\<close>.
\<close>

fun contract_vertices :: "Vertex list \<Rightarrow> int \<Rightarrow> int \<Rightarrow> nat list \<Rightarrow> Vertex list option" where
  "contract_vertices vs i j [] = Some []"
| "contract_vertices vs i j (k # ks) =
     (if int k = i then
        (if j < int (length vs)
         then map_option (Cons (sort (vs ! k @ vs ! nat j))) (contract_vertices vs i j ks)
         else None)
      else if int k = j then contract_vertices vs i j ks
      else map_option (Cons (vs ! k)) (contract_vertices vs i j ks))"

text \<open>The loop over the edges, with \<open>i \<le> j\<close> the contracted pair.\<close>

fun contract_edges :: "int \<Rightarrow> int \<Rightarrow> Edge list \<Rightarrow> Edge list" where
  "contract_edges i j [] = []"
| "contract_edges i j (e # es) =
     (let k = start_idx e; l = end_idx e in
      if (k = i \<and> l = j) \<or> (k = j \<and> l = i) then contract_edges i j es
      else if k = i \<or> k = j then
        (let l = (if l > j then l - 1 else l) in
         (if l < i then \<lparr>start_idx = l, end_idx = i\<rparr> else \<lparr>start_idx = i, end_idx = l\<rparr>)
           # contract_edges i j es)
      else if l = i \<or> l = j then
        (let k = (if k > j then k - 1 else k) in
         (if k < i then \<lparr>start_idx = k, end_idx = i\<rparr> else \<lparr>start_idx = i, end_idx = k\<rparr>)
           # contract_edges i j es)
      else
        (let k = (if k > j then k - 1 else k); l = (if l > j then l - 1 else l) in
         (if k < l then \<lparr>start_idx = k, end_idx = l\<rparr> else \<lparr>start_idx = l, end_idx = k\<rparr>)
           # contract_edges i j es))"

text \<open>The body of the outer loop: the child obtained by contracting one edge.\<close>

definition contract :: "Submap \<Rightarrow> Edge \<Rightarrow> Submap option" where
  "contract submap edge =
     (let i = (if start_idx edge > end_idx edge then end_idx edge else start_idx edge);
          j = (if start_idx edge > end_idx edge then start_idx edge else end_idx edge)
      in case contract_vertices (vertices submap) i j [0..<length (vertices submap)] of
           None \<Rightarrow> None
         | Some vs \<Rightarrow> Some \<lparr>vertices = vs, edges = contract_edges i j (edges submap)\<rparr>)"

text \<open>
  The outer loop adds one child per edge to the result. When the contraction of one edge
  reads out of range, the call as a whole has no defined result.
\<close>

fun collect :: "'a option list \<Rightarrow> 'a list option" where
  "collect [] = Some []"
| "collect (None # xs) = None"
| "collect (Some x # xs) = map_option (Cons x) (collect xs)"

definition get_direct_submaps :: "Submap \<Rightarrow> Submap list option" where
  "get_direct_submaps submap = collect (map (contract submap) (edges submap))"

section \<open>Enumeration: \<^verbatim>\<open>_handle\<close> and \<^verbatim>\<open>get_all_submaps\<close>\<close>

fun in_submap_array :: "Submap list \<Rightarrow> Submap \<Rightarrow> bool" where
  "in_submap_array [] submap = False"
| "in_submap_array (s # submaps) submap =
     (if submap_eq s submap then True else in_submap_array submaps submap)"

text \<open>
  \<^verbatim>\<open>_handle\<close> recurses into the children of its argument. The recursion ends because
  every child has fewer edges than its parent: contracting an edge removes at least that
  edge from the list. \<open>max_edges\<close> bounds the edge counts of a list of children.
\<close>

fun max_edges :: "Submap list \<Rightarrow> nat" where
  "max_edges [] = 0"
| "max_edges (c # cs) = max (Suc (length (edges c))) (max_edges cs)"

lemma contract_edges_length: "length (contract_edges i j es) \<le> length es"
  by (induction es) (auto simp: Let_def)

lemma contract_edges_shorter:
  "e \<in> set es \<Longrightarrow> (start_idx e = i \<and> end_idx e = j) \<or> (start_idx e = j \<and> end_idx e = i)
   \<Longrightarrow> length (contract_edges i j es) < length es"
proof (induction es)
  case Nil
  then show ?case by simp
next
  case (Cons x xs)
  show ?case
  proof (cases "(start_idx x = i \<and> end_idx x = j) \<or> (start_idx x = j \<and> end_idx x = i)")
    case True
    then show ?thesis
      using contract_edges_length [of i j xs] by (auto simp: Let_def)
  next
    case False
    with Cons.prems have "e \<in> set xs" by auto
    from Cons.IH [OF this Cons.prems(2)] show ?thesis
      by (auto simp: Let_def)
  qed
qed

lemma collect_Some: "collect xs = Some ys \<Longrightarrow> xs = map Some ys"
proof (induction xs arbitrary: ys)
  case Nil
  then show ?case by simp
next
  case (Cons x xs)
  then show ?case by (cases x) auto
qed

lemma contract_fewer_edges:
  assumes "contract s e = Some c" and "e \<in> set (edges s)"
  shows "length (edges c) < length (edges s)"
proof -
  let ?i = "if start_idx e > end_idx e then end_idx e else start_idx e"
  let ?j = "if start_idx e > end_idx e then start_idx e else end_idx e"
  from assms(1) have "edges c = contract_edges ?i ?j (edges s)"
    by (auto simp: contract_def Let_def split: option.splits)
  moreover have "length (contract_edges ?i ?j (edges s)) < length (edges s)"
    by (rule contract_edges_shorter [OF assms(2)]) auto
  ultimately show ?thesis by simp
qed

lemma get_direct_submaps_contract:
  assumes "get_direct_submaps s = Some cs" and "c \<in> set cs"
  shows "\<exists>e \<in> set (edges s). contract s e = Some c"
proof -
  from assms(1) have "map (contract s) (edges s) = map Some cs"
    by (simp add: get_direct_submaps_def collect_Some)
  with assms(2) have "Some c \<in> set (map (contract s) (edges s))" by simp
  then show ?thesis by auto
qed

lemma get_direct_submaps_fewer_edges:
  "get_direct_submaps s = Some cs \<Longrightarrow> c \<in> set cs \<Longrightarrow> length (edges c) < length (edges s)"
  using get_direct_submaps_contract contract_fewer_edges by blast

lemma max_edges_le: "\<forall>c \<in> set cs. length (edges c) < n \<Longrightarrow> max_edges cs \<le> n"
  by (induction cs) auto

text \<open>
  \<^verbatim>\<open>_handle\<close>, with the globals passed as a state. It reads \<^verbatim>\<open>graph_changed\<close> once
  (one poll) and \<^verbatim>\<open>stop_flag\<close>; if either is set it raises \<^verbatim>\<open>stop_flag\<close> and
  returns. If the submap is in \<^verbatim>\<open>_all_submaps\<close> already it returns. Otherwise it
  computes the children, visits them in order when the submap has more than one block
  (\<open>handle_each\<close>, the loop), and then appends the submap itself. The result is \<open>None\<close>
  when a read was out of range.
\<close>

function handle :: "signal \<Rightarrow> Submap \<Rightarrow> state \<Rightarrow> state option"
  and handle_each :: "signal \<Rightarrow> Submap list \<Rightarrow> state \<Rightarrow> state option" where
  "handle gc submap st0 =
     (let st = st0\<lparr>polls := Suc (polls st0)\<rparr> in
      if gc (polls st0) \<or> stop_flag st then Some (st\<lparr>stop_flag := True\<rparr>)
      else if in_submap_array (all_submaps st) submap then Some st
      else case get_direct_submaps submap of
          None \<Rightarrow> None
        | Some direct_submaps \<Rightarrow>
            (case (if length (vertices submap) > 1 then handle_each gc direct_submaps st
                   else Some st) of
               None \<Rightarrow> None
             | Some st' \<Rightarrow>
                 Some (st'\<lparr>cur_submap_count := Suc (cur_submap_count st'),
                           all_submaps := all_submaps st' @ [submap]\<rparr>)))"
| "handle_each gc [] st = Some st"
| "handle_each gc (direct_submap # rest) st =
     (case handle gc direct_submap st of
        None \<Rightarrow> None
      | Some st' \<Rightarrow> handle_each gc rest st')"
  by pat_completeness auto
termination
proof (relation "measures
    [\<lambda>x. case x of Inl (gc, s, st) \<Rightarrow> Suc (length (edges s)) | Inr (gc, cs, st) \<Rightarrow> max_edges cs,
     \<lambda>x. case x of Inl (gc, s, st) \<Rightarrow> 0 | Inr (gc, cs, st) \<Rightarrow> Suc (length cs)]", goal_cases)
  case 1
  then show ?case by simp
next
  case (2 gc submap st0 st ds)
  then have "max_edges ds \<le> length (edges submap)"
    by (intro max_edges_le) (auto dest: get_direct_submaps_fewer_edges)
  then show ?case by simp
next
  case (3 gc c rest st)
  then show ?case by (auto simp: max_def)
next
  case (4 gc c rest st st')
  then show ?case by (auto simp: max_def)
qed

text \<open>
  \<^verbatim>\<open>get_all_submaps\<close> empties the global list, runs \<^verbatim>\<open>_handle\<close>, clears
  \<^verbatim>\<open>stop_flag\<close> and the progress counter and returns the list. \<^verbatim>\<open>from_graph\<close> makes
  one singleton block per vertex \<open>0, \<dots>, n - 1\<close> and copies the edges.
\<close>

definition get_all_submaps :: "signal \<Rightarrow> Submap \<Rightarrow> state \<Rightarrow> (Submap list \<times> state) option" where
  "get_all_submaps gc submap st =
     (case handle gc submap (st\<lparr>all_submaps := []\<rparr>) of
        None \<Rightarrow> None
      | Some st' \<Rightarrow>
          Some (all_submaps st', st'\<lparr>stop_flag := False, cur_submap_count := 0\<rparr>))"

definition from_graph :: "int \<Rightarrow> Edge list \<Rightarrow> Submap" where
  "from_graph n edges_in = \<lparr>vertices = map (\<lambda>i. [i]) [0..n - 1], edges = edges_in\<rparr>"

section \<open>The order matrix: \<^verbatim>\<open>submap_ge\<close> and \<^verbatim>\<open>get_ordering_matrix\<close>\<close>

text \<open>
  \<^verbatim>\<open>_find_node_idx\<close> is declared on a \<^verbatim>\<open>Submap *\<close> and called with
  \<^verbatim>\<open>&s2->vertices\<close>, the address of the first field, which is the address of the
  submap: it searches the blocks of \<open>s2\<close>.
\<close>

fun find_node_idx_from :: "nat \<Rightarrow> Vertex list \<Rightarrow> int \<Rightarrow> int" where
  "find_node_idx_from i [] n = - 1"
| "find_node_idx_from i (v # vs) n =
     (if array_contains int_eq v n then int i else find_node_idx_from (Suc i) vs n)"

definition find_node_idx :: "Submap \<Rightarrow> int \<Rightarrow> int" where
  "find_node_idx submap n = find_node_idx_from 0 (vertices submap) n"

text \<open>
  \<^verbatim>\<open>submap_ge\<close>: for every block of \<open>s1\<close>, the first label sets \<open>idx\<close>, and every
  later label must be found at the same index, else the function returns false.
\<close>

fun same_idx :: "Submap \<Rightarrow> int \<Rightarrow> int list \<Rightarrow> bool" where
  "same_idx s2 idx [] = True"
| "same_idx s2 idx (n # ns) =
     (if find_node_idx s2 n \<noteq> idx then False else same_idx s2 idx ns)"

fun block_ge :: "Submap \<Rightarrow> Vertex \<Rightarrow> bool" where
  "block_ge s2 [] = True"
| "block_ge s2 (n # ns) = same_idx s2 (find_node_idx s2 n) ns"

fun blocks_ge :: "Vertex list \<Rightarrow> Submap \<Rightarrow> bool" where
  "blocks_ge [] s2 = True"
| "blocks_ge (v # vs) s2 = (if block_ge s2 v then blocks_ge vs s2 else False)"

definition submap_ge :: "Submap \<Rightarrow> Submap \<Rightarrow> bool" where
  "submap_ge s1 s2 = blocks_ge (vertices s1) s2"

text \<open>
  \<^verbatim>\<open>matrix_init\<close> allocates the rows with \<^verbatim>\<open>malloc\<close> and does not initialise
  them: the entries start as whatever the heap holds, the parameter \<open>heap\<close>.
\<close>

definition matrix_init :: "(nat \<Rightarrow> nat \<Rightarrow> 'a) \<Rightarrow> nat \<Rightarrow> 'a WYMatrix" where
  "matrix_init heap n = \<lparr>size_m = n, entries = heap\<rparr>"

fun ordering_row :: "nat \<Rightarrow> Submap \<Rightarrow> (nat \<times> Submap) list \<Rightarrow> (nat \<Rightarrow> 'a) \<Rightarrow> (nat \<Rightarrow> 'a::zero_neq_one)" where
  "ordering_row i s1 [] row = row"
| "ordering_row i s1 ((j, s2) # rest) row =
     ordering_row i s1 rest (row(j := (if i \<le> j \<and> submap_ge s2 s1 then 1 else 0)))"

text \<open>
  The loop over the rows. The cancellation check comes first in every row; on a positive
  reading the matrix is returned as it is, the remaining rows never written.
\<close>

fun ordering_rows ::
  "signal \<Rightarrow> Submap list \<Rightarrow> (nat \<times> Submap) list \<Rightarrow> 'a WYMatrix \<Rightarrow> state \<Rightarrow> ('a::zero_neq_one) WYMatrix \<times> state" where
  "ordering_rows gc submaps [] M st = (M, st\<lparr>cur_matrix_rows_count := 0\<rparr>)"
| "ordering_rows gc submaps ((i, s1) # rest) M st0 =
     (let st = st0\<lparr>cur_matrix_rows_count := Suc (cur_matrix_rows_count st0),
                   polls := Suc (polls st0)\<rparr> in
      if gc (polls st0) \<or> stop_flag st
      then (M, st\<lparr>stop_flag := False, cur_submap_count := 0, cur_matrix_rows_count := 0\<rparr>)
      else ordering_rows gc submaps rest
             (M\<lparr>entries := (entries M)(i := ordering_row i s1 (enumerate 0 submaps) (entries M i))\<rparr>)
             st)"

definition get_ordering_matrix ::
  "signal \<Rightarrow> (nat \<Rightarrow> nat \<Rightarrow> 'a) \<Rightarrow> Submap list \<Rightarrow> state \<Rightarrow> ('a::zero_neq_one) WYMatrix \<times> state" where
  "get_ordering_matrix gc heap submaps st =
     ordering_rows gc submaps (enumerate 0 submaps) (matrix_init heap (length submaps)) st"

section \<open>M\"obius values and coefficients\<close>

text \<open>
  \<^verbatim>\<open>get_mobius_of_column\<close>: \<open>j\<close> runs from \<open>M.size - 1\<close> down to \<open>0\<close>; the inner
  loop sums over every column \<open>k\<close>, the entries of \<open>unknowns\<close> not yet computed being 0.
\<close>

fun mobius_loop :: "('a::comm_ring_1) WYMatrix \<Rightarrow> nat \<Rightarrow> 'a list \<Rightarrow> 'a list" where
  "mobius_loop M 0 unknowns = unknowns"
| "mobius_loop M (Suc j) unknowns =
     (let unknown =
        (if j = size_m M - 1 then 1
         else - fold (\<lambda>k u. u + unknowns ! k * entries M j k) [0..<size_m M] 0)
      in mobius_loop M j (unknowns[j := unknowns ! j + unknown]))"

definition get_mobius_of_column :: "('a::comm_ring_1) WYMatrix \<Rightarrow> 'a list" where
  "get_mobius_of_column M = mobius_loop M (size_m M) (replicate (size_m M) 0)"

text \<open>
  \<^verbatim>\<open>get_chromatic_polynomial\<close>: \<open>P\<close> has \<open>n\<close> zeros; the M\"obius value of submap \<open>i\<close>
  is added at index (number of blocks) - 1. That index is a \<^verbatim>\<open>size_t\<close>: it is out of
  range for a submap with no block or with more than \<open>n\<close> blocks, and
  \<^verbatim>\<open>array_at(submaps, i)\<close> is out of range when the matrix is larger than the list; both
  give \<open>None\<close>.
\<close>

fun add_mobiuses :: "Submap list \<Rightarrow> (nat \<times> 'a) list \<Rightarrow> 'a list \<Rightarrow> ('a::comm_ring_1) list option" where
  "add_mobiuses submaps [] P = Some P"
| "add_mobiuses submaps ((i, mobius) # rest) P =
     (if i < length submaps then
        (let k = length (vertices (submaps ! i)) in
         if 1 \<le> k \<and> k \<le> length P
         then add_mobiuses submaps rest (P[k - 1 := P ! (k - 1) + mobius])
         else None)
      else None)"

definition get_chromatic_polynomial ::
  "int \<Rightarrow> Submap list \<Rightarrow> 'a WYMatrix \<Rightarrow> ('a::comm_ring_1) list option" where
  "get_chromatic_polynomial n submaps M =
     add_mobiuses submaps (enumerate 0 (get_mobius_of_column M)) (replicate (nat n) 0)"

section \<open>One cycle of the worker: \<^verbatim>\<open>calculate\<close>\<close>

text \<open>
  What the presentation layer shows: the loading text, or the text rendered from a
  coefficient array by \<^verbatim>\<open>set_output_to_polynomial\<close>.
\<close>

datatype 'a display = Loading | Polynomial "'a list"

text \<open>
  The body of the worker's loop once it has read \<^verbatim>\<open>graph_changed\<close> as set and has
  cleared it: \<open>n\<close> is \<^verbatim>\<open>active_node_count(&nodes)\<close>, \<open>edges_in\<close> the global edge list,
  \<open>before\<close> what was shown and the state of the globals before the cycle. The cycle first
  shows the loading text; with no active node it stops there. Freeing of the previous
  list, matrix and coefficient array is not part of the model.
\<close>

definition calculate_cycle ::
  "signal \<Rightarrow> (nat \<Rightarrow> nat \<Rightarrow> 'a) \<Rightarrow> nat \<Rightarrow> Edge list \<Rightarrow> 'a display \<times> state
     \<Rightarrow> (('a::comm_ring_1) display \<times> state) option" where
  "calculate_cycle gc heap n edges_in before =
     (let output = Loading; st = snd before in
      if n = 0 then Some (output, st)
      else case get_all_submaps gc (from_graph (int n) edges_in) st of
          None \<Rightarrow> None
        | Some (submaps, st1) \<Rightarrow>
            (case get_ordering_matrix gc heap submaps st1 of
               (M, st2) \<Rightarrow>
                 (case get_chromatic_polynomial (int n) submaps M of
                    None \<Rightarrow> None
                  | Some P \<Rightarrow> Some (Polynomial P, st2))))"

text \<open>The globals as \<^verbatim>\<open>submap.c\<close> initialises them.\<close>

definition st_init :: state where
  "st_init = \<lparr>all_submaps = [], stop_flag = False, cur_submap_count = 0,
              cur_matrix_rows_count = 0, polls = 0\<rparr>"

section \<open>Properties and example inputs\<close>

text \<open>The triangle: three vertices, every two joined.\<close>

definition triangle :: "Edge list" where
  "triangle = [\<lparr>start_idx = 0, end_idx = 1\<rparr>, \<lparr>start_idx = 0, end_idx = 2\<rparr>,
               \<lparr>start_idx = 1, end_idx = 2\<rparr>]"

text \<open>
  The value of a coefficient array at \<open>q\<close>: the coefficient at index \<open>k\<close> belongs to the
  power \<open>k + 1\<close>, as \<^verbatim>\<open>polynomial_print\<close> and \<^verbatim>\<open>set_output_to_polynomial\<close> print it.
\<close>

definition poly_value :: "int list \<Rightarrow> int \<Rightarrow> int" where
  "poly_value P q = sum_list (map (\<lambda>k. P ! k * q ^ (k + 1)) [0..<length P])"

text \<open>
  A matrix is unit-upper-triangular when its diagonal is 1 and every entry below the
  diagonal is 0; it is a 0/1 matrix when every entry is 0 or 1. Both are meant for the
  indices below the size.
\<close>

definition unit_upper_triangular :: "('a::comm_ring_1) WYMatrix \<Rightarrow> bool" where
  "unit_upper_triangular M =
     list_all (\<lambda>i. entries M i i = 1 \<and> list_all (\<lambda>j. entries M i j = 0) [0..<i]) [0..<size_m M]"

definition zero_one :: "('a::comm_ring_1) WYMatrix \<Rightarrow> bool" where
  "zero_one M =
     list_all (\<lambda>i. list_all (\<lambda>j. entries M i j = 0 \<or> entries M i j = 1) [0..<size_m M])
       [0..<size_m M]"

text \<open>The order matrix of a chain of three elements.\<close>

definition chain3 :: "int WYMatrix" where
  "chain3 = \<lparr>size_m = 3, entries = (\<lambda>i j. if i \<le> j then 1 else 0)\<rparr>"

text \<open>
  The blocks of a submap are pairwise disjoint when no label of a block occurs in a later
  block. Every submap the enumeration produces is of this kind; the C type also holds
  block sequences that are not.
\<close>

fun disjoint_blocks :: "Vertex list \<Rightarrow> bool" where
  "disjoint_blocks [] = True"
| "disjoint_blocks (v # vs) = (list_all (\<lambda>w. list_all (\<lambda>n. n \<notin> set w) v) vs \<and> disjoint_blocks vs)"

text \<open>A block sequence that is no partition: label 1 is in both blocks.\<close>

definition overlapping :: Submap where
  "overlapping = \<lparr>vertices = [[0, 1], [1, 2]], edges = []\<rparr>"

text \<open>The list enumerated from the graph with the single edge (0,1).\<close>

definition two_blocks :: "Submap list" where
  "two_blocks = [\<lparr>vertices = [[0, 1]], edges = []\<rparr>,
                 \<lparr>vertices = [[0], [1]], edges = [\<lparr>start_idx = 0, end_idx = 1\<rparr>]\<rparr>]"

text \<open>
  The Submap invariants of the data model: an edge is valid for \<open>n\<close> blocks when both its
  indices lie in \<open>0..n-1\<close> and differ; two edges are the same pair when they are equal as
  unordered pairs. A graph handed to \<^verbatim>\<open>from_graph\<close> is simple when its edges are valid
  for its \<open>n\<close> vertices and no two are the same pair.
\<close>

definition valid_edge :: "int \<Rightarrow> Edge \<Rightarrow> bool" where
  "valid_edge n e =
     (0 \<le> start_idx e \<and> start_idx e < n \<and> 0 \<le> end_idx e \<and> end_idx e < n
      \<and> start_idx e \<noteq> end_idx e)"

definition edges_valid :: "Submap \<Rightarrow> bool" where
  "edges_valid s = list_all (valid_edge (int (length (vertices s)))) (edges s)"

definition same_pair :: "Edge \<Rightarrow> Edge \<Rightarrow> bool" where
  "same_pair e1 e2 =
     ((start_idx e1 = start_idx e2 \<and> end_idx e1 = end_idx e2)
      \<or> (start_idx e1 = end_idx e2 \<and> end_idx e1 = start_idx e2))"

fun no_duplicate_edges :: "Edge list \<Rightarrow> bool" where
  "no_duplicate_edges [] = True"
| "no_duplicate_edges (e # es) = (list_all (\<lambda>e'. \<not> same_pair e e') es \<and> no_duplicate_edges es)"

definition submap_invariants :: "Submap \<Rightarrow> bool" where
  "submap_invariants s = (edges_valid s \<and> no_duplicate_edges (edges s))"

definition simple_graph :: "int \<Rightarrow> Edge list \<Rightarrow> bool" where
  "simple_graph n es = (list_all (valid_edge n) es \<and> no_duplicate_edges es)"

text \<open>The smaller and the larger index of an edge: \<open>i\<close> and \<open>j\<close> after the swap.\<close>

definition lo :: "Edge \<Rightarrow> int" where
  "lo e = (if start_idx e > end_idx e then end_idx e else start_idx e)"

definition hi :: "Edge \<Rightarrow> int" where
  "hi e = (if start_idx e > end_idx e then start_idx e else end_idx e)"

text \<open>
  A block sequence is in canonical order when every block is non-empty and sorted
  ascending and the minimum labels of the blocks increase strictly along the sequence.
\<close>

definition canonical_blocks :: "Vertex list \<Rightarrow> bool" where
  "canonical_blocks vs =
     (list_all (\<lambda>v. v \<noteq> [] \<and> sorted v) vs \<and> sorted_wrt (<) (map (\<lambda>v. Min (set v)) vs))"

text \<open>
  The two disjoint edges (0,1) and (2,3) on four vertices, contracted in either order.
\<close>

definition two_edges :: Submap where
  "two_edges = from_graph 4 [\<lparr>start_idx = 0, end_idx = 1\<rparr>, \<lparr>start_idx = 2, end_idx = 3\<rparr>]"

definition first_then_second :: Submap where
  "first_then_second = the (get_direct_submaps (the (get_direct_submaps two_edges) ! 0)) ! 0"

definition second_then_first :: Submap where
  "second_then_first = the (get_direct_submaps (the (get_direct_submaps two_edges) ! 1)) ! 0"

text \<open>The ordering invariant of the list of submaps found so far.\<close>

definition children_first :: "Submap list \<Rightarrow> bool" where
  "children_first L =
     (\<forall>p<length L. \<forall>cs. get_direct_submaps (L ! p) = Some cs \<longrightarrow>
        (\<forall>c\<in>set cs. \<exists>q<p. L ! q = c))"

definition found_ok :: "Submap list \<Rightarrow> bool" where
  "found_ok L = (distinct L \<and> (\<forall>x\<in>set L. edges_valid x) \<and> children_first L)"

text \<open>
  The refinement order in the words of the spec: \<open>B\<close> is a coarsening of \<open>A\<close> when every
  block of \<open>A\<close> is a subset of exactly one block of \<open>B\<close>.
\<close>

definition coarsens :: "Submap \<Rightarrow> Submap \<Rightarrow> bool" where
  "coarsens B A =
     list_all (\<lambda>a. length (filter (\<lambda>b. set a \<subseteq> set b) (vertices B)) = 1) (vertices A)"

text \<open>Two vertices with the edge (0,1) and an edge whose indices are out of range.\<close>

definition stray_edge :: Submap where
  "stray_edge = \<lparr>vertices = [[0], [1]],
                  edges = [\<lparr>start_idx = 0, end_idx = 1\<rparr>, \<lparr>start_idx = 5, end_idx = 7\<rparr>]\<rparr>"

text \<open>The graph with two vertices and the edge (0,1); its enumerated list is \<open>two_blocks\<close>.\<close>

definition single_edge :: "Edge list" where
  "single_edge = [\<lparr>start_idx = 0, end_idx = 1\<rparr>]"

section \<open>The triangle\<close>

text \<open>
  Claim C4. For the triangle (3 vertices, edges (0,1), (0,2), (1,2)) an uncancelled cycle
  of the worker, which runs \<^verbatim>\<open>from_graph\<close>, \<^verbatim>\<open>get_all_submaps\<close>,
  \<^verbatim>\<open>get_ordering_matrix\<close> and \<^verbatim>\<open>get_chromatic_polynomial\<close> with \<open>n = 3\<close>, ends with
  the coefficient array \<open>[2, -3, 1]\<close>, whatever the heap held and whatever was shown
  before; the polynomial it stands for is 0 at 2 and 6 at 3.
\<close>

theorem triangle_polynomial:
  "map_option fst (calculate_cycle (\<lambda>_. False) heap 3 triangle (shown, st_init))
     = Some (Polynomial [2, - 3, 1 :: int])
   \<and> poly_value [2, - 3, 1] 2 = 0 \<and> poly_value [2, - 3, 1] 3 = 6"
  by code_simp

section \<open>The M\"obius recurrence\<close>

lemma fold_add_sum_list: "fold (\<lambda>k u. u + f k) xs a = (a :: 'a :: comm_ring_1) + sum_list (map f xs)"
  by (induction xs arbitrary: a) (simp_all add: add.assoc)

lemma fold_add_sum: "fold (\<lambda>k u. u + f k) [0..<m] 0 = (\<Sum>k<m. (f k :: 'a :: comm_ring_1))"
  by (simp add: fold_add_sum_list interv_sum_list_conv_sum_set_nat atLeast0LessThan)

lemma mobius_loop_length: "length (mobius_loop M j u) = length u"
  by (induction j arbitrary: u) (simp_all add: Let_def)

lemma mobius_loop_above: "j \<le> k \<Longrightarrow> mobius_loop M j u ! k = u ! k"
  by (induction j arbitrary: u) (simp_all add: Let_def)

lemma sum_zero_prefix:
  fixes g :: "nat \<Rightarrow> 'a :: comm_ring_1"
  assumes "j < m" and "\<forall>k\<le>j. g k = 0"
  shows "(\<Sum>k<m. g k) = (\<Sum>k\<in>{j<..<m}. g k)"
proof -
  have "{..<m} = {..j} \<union> {j<..<m}" using assms(1) by auto
  moreover have "{..j} \<inter> {j<..<m} = {}" by auto
  ultimately have "(\<Sum>k<m. g k) = (\<Sum>k\<in>{..j}. g k) + (\<Sum>k\<in>{j<..<m}. g k)"
    by (simp add: sum.union_disjoint)
  with assms(2) show ?thesis by simp
qed

lemma mobius_loop_below:
  assumes "length u = size_m M" and "j \<le> size_m M" and "\<forall>k<j. u ! k = 0" and "s < j"
  shows "mobius_loop M j u ! s =
     (if s = size_m M - 1 then 1
      else - (\<Sum>t\<in>{s<..<size_m M}. mobius_loop M j u ! t * entries M s t))"
  using assms
proof (induction j arbitrary: u)
  case 0
  then show ?case by simp
next
  case (Suc j)
  define unknown where "unknown =
    (if j = size_m M - 1 then 1
     else - fold (\<lambda>k a. a + u ! k * entries M j k) [0..<size_m M] 0)"
  define u' where "u' = u[j := u ! j + unknown]"
  have step: "mobius_loop M (Suc j) u = mobius_loop M j u'"
    by (simp add: Let_def u'_def unknown_def)
  have len: "length u' = size_m M" using Suc.prems(1) by (simp add: u'_def)
  have zeros: "\<forall>k<j. u' ! k = 0" using Suc.prems(3) by (simp add: u'_def)
  show ?case
  proof (cases "s < j")
    case True
    have "j \<le> size_m M" using Suc.prems(2) by simp
    from Suc.IH [OF len this zeros True] show ?thesis
      unfolding step .
  next
    case False
    with Suc.prems(4) have sj: "s = j" by simp
    have jm: "j < size_m M" using Suc.prems(2) by simp
    have above: "\<And>t. j < t \<Longrightarrow> mobius_loop M j u' ! t = u ! t"
      by (simp add: mobius_loop_above u'_def)
    have "mobius_loop M j u' ! j = u' ! j" by (simp add: mobius_loop_above)
    also have "\<dots> = unknown"
      using Suc.prems(1,3) jm by (simp add: u'_def)
    finally have rj: "mobius_loop M j u' ! j = unknown" .
    show ?thesis
    proof (cases "j = size_m M - 1")
      case True
      then show ?thesis unfolding step sj rj by (simp add: unknown_def)
    next
      case False
      have "(\<Sum>k<size_m M. u ! k * entries M j k) = (\<Sum>k\<in>{j<..<size_m M}. u ! k * entries M j k)"
        using Suc.prems(3) by (intro sum_zero_prefix jm) auto
      also have "\<dots> = (\<Sum>t\<in>{j<..<size_m M}. mobius_loop M j u' ! t * entries M j t)"
        by (intro sum.cong) (simp_all add: above)
      finally show ?thesis
        unfolding step sj rj using False by (simp add: unknown_def fold_add_sum)
    qed
  qed
qed

lemma unit_upper_triangularD:
  "unit_upper_triangular M \<Longrightarrow> i < size_m M \<Longrightarrow> entries M i i = 1 \<and> (\<forall>j<i. entries M i j = 0)"
  by (auto simp: unit_upper_triangular_def list_all_iff)

lemma zero_oneD:
  "zero_one M \<Longrightarrow> i < size_m M \<Longrightarrow> j < size_m M \<Longrightarrow> entries M i j = 0 \<or> entries M i j = 1"
  by (auto simp: zero_one_def list_all_iff)

lemma mobius_recurrence:
  assumes "s < size_m M"
  shows "get_mobius_of_column M ! s =
     (if s = size_m M - 1 then 1
      else - (\<Sum>t\<in>{s<..<size_m M}. get_mobius_of_column M ! t * entries M s t))"
  unfolding get_mobius_of_column_def
  by (rule mobius_loop_below) (use assms in simp_all)

text \<open>
  Claim C5. For every unit-upper-triangular 0/1 matrix \<open>M\<close> of size \<open>m\<close> the vector \<open>\<mu>\<close>
  returned by \<^verbatim>\<open>get_mobius_of_column\<close> has length \<open>m\<close> and satisfies: for every
  \<open>s < m\<close> the sum over all \<open>t < m\<close> of \<open>\<mu>(t) * M[s][t]\<close> is 1 if \<open>s = m - 1\<close> and 0
  otherwise; \<open>\<mu>(m - 1) = 1\<close>; and for \<open>s < m - 1\<close>, \<open>\<mu>(s)\<close> is the negated sum of \<open>\<mu>(t)\<close>
  over the \<open>t \<noteq> s\<close> with \<open>M[s][t] = 1\<close>. The arithmetic is that of any commutative ring
  with 1: the integers, or machine words that wrap around.
\<close>

theorem mobius_identity:
  fixes M :: "('a::comm_ring_1) WYMatrix"
  assumes "unit_upper_triangular M" and "zero_one M"
  shows "length (get_mobius_of_column M) = size_m M
    \<and> (\<forall>s<size_m M. (\<Sum>t<size_m M. get_mobius_of_column M ! t * entries M s t)
           = (if s = size_m M - 1 then 1 else 0))
    \<and> (0 < size_m M \<longrightarrow> get_mobius_of_column M ! (size_m M - 1) = 1)
    \<and> (\<forall>s<size_m M - 1. get_mobius_of_column M ! s
           = - (\<Sum>t | t < size_m M \<and> t \<noteq> s \<and> entries M s t = 1. get_mobius_of_column M ! t))"
proof (intro conjI allI impI)
  show "length (get_mobius_of_column M) = size_m M"
    by (simp add: get_mobius_of_column_def mobius_loop_length)
next
  fix s assume s: "s < size_m M"
  let ?mu = "get_mobius_of_column M"
  let ?m = "size_m M"
  have split: "{..<?m} = ({..<s} \<union> {s}) \<union> {s<..<?m}" using s by auto
  have d1: "({..<s} \<union> {s}) \<inter> {s<..<?m} = {}" by auto
  have "(\<Sum>t<?m. ?mu ! t * entries M s t)
      = (\<Sum>t\<in>{..<s} \<union> {s}. ?mu ! t * entries M s t)
        + (\<Sum>t\<in>{s<..<?m}. ?mu ! t * entries M s t)"
    unfolding split by (rule sum.union_disjoint) (use d1 in simp_all)
  also have "(\<Sum>t\<in>{..<s} \<union> {s}. ?mu ! t * entries M s t)
      = (\<Sum>t\<in>{..<s}. ?mu ! t * entries M s t) + ?mu ! s * entries M s s"
    by (subst sum.union_disjoint) simp_all
  also have "(\<Sum>t\<in>{..<s}. ?mu ! t * entries M s t) = 0"
    using unit_upper_triangularD [OF assms(1) s] by simp
  also have "?mu ! s * entries M s s = ?mu ! s"
    using unit_upper_triangularD [OF assms(1) s] by simp
  finally have eq: "(\<Sum>t<?m. ?mu ! t * entries M s t)
      = ?mu ! s + (\<Sum>t\<in>{s<..<?m}. ?mu ! t * entries M s t)" by simp
  show "(\<Sum>t<?m. ?mu ! t * entries M s t) = (if s = ?m - 1 then 1 else 0)"
  proof (cases "s = ?m - 1")
    case True
    then have "{s<..<?m} = {}" by auto
    with True show ?thesis using eq mobius_recurrence [OF s] by simp
  next
    case False
    then show ?thesis using eq mobius_recurrence [OF s] by simp
  qed
next
  assume "0 < size_m M"
  then show "get_mobius_of_column M ! (size_m M - 1) = 1"
    using mobius_recurrence [of "size_m M - 1" M] by simp
next
  fix s assume s: "s < size_m M - 1"
  let ?mu = "get_mobius_of_column M"
  let ?m = "size_m M"
  have sm: "s < ?m" using s by simp
  have low: "\<And>t. t < s \<Longrightarrow> entries M s t = 0"
    using unit_upper_triangularD [OF assms(1) sm] by simp
  have ones: "{t. t < ?m \<and> t \<noteq> s \<and> entries M s t = 1} = {t \<in> {s<..<?m}. entries M s t = 1}"
  proof -
    have "t < s \<Longrightarrow> entries M s t \<noteq> 1" for t using low [of t] by simp
    then have "entries M s t = 1 \<Longrightarrow> t \<noteq> s \<Longrightarrow> s < t" for t
      by (meson linorder_neqE_nat)
    then show ?thesis by auto
  qed
  have "(\<Sum>t\<in>{s<..<?m}. ?mu ! t * entries M s t)
      = (\<Sum>t\<in>{t \<in> {s<..<?m}. entries M s t = 1}. ?mu ! t)"
  proof -
    have "(\<Sum>t\<in>{s<..<?m}. ?mu ! t * entries M s t)
        = (\<Sum>t\<in>{s<..<?m}. if entries M s t = 1 then ?mu ! t else 0)"
    proof (rule sum.cong [OF refl])
      fix t assume "t \<in> {s<..<?m}"
      then have "t < ?m" by simp
      from zero_oneD [OF assms(2) sm this]
      show "?mu ! t * entries M s t = (if entries M s t = 1 then ?mu ! t else 0)" by auto
    qed
    also have "\<dots> = (\<Sum>t\<in>{t \<in> {s<..<?m}. entries M s t = 1}. ?mu ! t)"
      by (rule sum.inter_filter [symmetric]) simp
    finally show ?thesis .
  qed
  with mobius_recurrence [OF sm] s ones
  show "?mu ! s = - (\<Sum>t | t < ?m \<and> t \<noteq> s \<and> entries M s t = 1. ?mu ! t)"
    by simp
qed

theorem mobius_identity_witness:
  "unit_upper_triangular chain3 \<and> zero_one chain3
   \<and> length (get_mobius_of_column chain3) = 3
   \<and> (\<Sum>t<3. get_mobius_of_column chain3 ! t * entries chain3 0 t) = 0
   \<and> (\<Sum>t<3. get_mobius_of_column chain3 ! t * entries chain3 2 t) = 1
   \<and> get_mobius_of_column chain3 ! 2 = 1"
proof -
  have h1: "unit_upper_triangular chain3" by code_simp
  have h2: "zero_one chain3" by code_simp
  have m: "size_m chain3 = 3" by (simp add: chain3_def)
  from mobius_identity [OF h1 h2] show ?thesis
    using h1 h2 unfolding m by simp
qed

section \<open>Equality tests and the closed form of the order matrix\<close>

lemma array_eq_iff: "array_eq cmp a1 a2 \<longleftrightarrow> list_all2 cmp a1 a2"
proof -
  have fold_and: "fold (\<lambda>i result. if P i then result else False) xs b \<longleftrightarrow> b \<and> (\<forall>i\<in>set xs. P i)"
    for P :: "nat \<Rightarrow> bool" and xs b
    by (induction xs arbitrary: b) auto
  show ?thesis
    by (auto simp: array_eq_def fold_and list_all2_conv_all_nth)
qed

lemma array_contains_iff: "array_contains int_eq a i \<longleftrightarrow> i \<in> set a"
proof -
  have "fold (\<lambda>l result. if int_eq l i then True else result) a b \<longleftrightarrow> b \<or> i \<in> set a" for b
    by (induction a arbitrary: b) (auto simp: int_eq_def)
  then show ?thesis by (simp add: array_contains_def)
qed

lemma vertex_eq_iff: "vertex_eq v1 v2 \<longleftrightarrow> v1 = v2"
  by (simp add: vertex_eq_def array_eq_iff int_eq_def [abs_def] list.rel_eq)

lemma edge_eq_iff: "edge_eq e1 e2 \<longleftrightarrow> e1 = e2"
  by (cases e1, cases e2) (auto simp: edge_eq_def)

lemma submap_eq_iff: "submap_eq s1 s2 \<longleftrightarrow> s1 = s2"
proof -
  have "list_all2 vertex_eq = (=)" by (simp add: vertex_eq_iff [abs_def] list.rel_eq)
  moreover have "list_all2 edge_eq = (=)" by (simp add: edge_eq_iff [abs_def] list.rel_eq)
  ultimately show ?thesis
    by (cases s1, cases s2) (auto simp: submap_eq_def array_eq_iff)
qed

lemma in_submap_array_iff: "in_submap_array submaps s \<longleftrightarrow> s \<in> set submaps"
  by (induction submaps) (auto simp: submap_eq_iff)

lemma find_node_idx_from_at:
  assumes "p < length vs" and "n \<in> set (vs ! p)" and "\<forall>q<p. n \<notin> set (vs ! q)"
  shows "find_node_idx_from k vs n = int (k + p)"
  using assms
proof (induction vs arbitrary: k p)
  case Nil
  then show ?case by simp
next
  case (Cons v vs)
  show ?case
  proof (cases p)
    case 0
    with Cons.prems show ?thesis by (simp add: array_contains_iff)
  next
    case (Suc p')
    with Cons.prems have "n \<notin> set v" by auto
    moreover have "find_node_idx_from (Suc k) vs n = int (Suc k + p')"
      using Cons.prems Suc by (intro Cons.IH) auto
    ultimately show ?thesis using Suc by (simp add: array_contains_iff)
  qed
qed

lemma find_node_idx_from_none:
  "\<forall>v\<in>set vs. n \<notin> set v \<Longrightarrow> find_node_idx_from k vs n = - 1"
  by (induction vs arbitrary: k) (auto simp: array_contains_iff)

lemma same_idx_iff: "same_idx s2 idx ns \<longleftrightarrow> (\<forall>n\<in>set ns. find_node_idx s2 n = idx)"
  by (induction ns) auto

lemma block_ge_iff:
  "block_ge s2 v \<longleftrightarrow> (\<forall>n\<in>set v. \<forall>n'\<in>set v. find_node_idx s2 n = find_node_idx s2 n')"
  by (cases v) (auto simp: same_idx_iff)

lemma submap_ge_iff:
  "submap_ge s1 s2 \<longleftrightarrow>
     (\<forall>v\<in>set (vertices s1). \<forall>n\<in>set v. \<forall>n'\<in>set v. find_node_idx s2 n = find_node_idx s2 n')"
proof -
  have "blocks_ge vs s2 \<longleftrightarrow> (\<forall>v\<in>set vs. block_ge s2 v)" for vs
    by (induction vs) auto
  then show ?thesis by (simp add: submap_ge_def block_ge_iff)
qed

lemma empty_range: "(k \<le> i \<and> i < (k::nat)) = False"
  by auto

lemma ordering_row_at:
  fixes row :: "nat \<Rightarrow> 'a::zero_neq_one"
  shows "ordering_row i s1 (enumerate k xs) row j =
     (if k \<le> j \<and> j < k + length xs
      then (if i \<le> j \<and> submap_ge (xs ! (j - k)) s1 then 1 else 0)
      else row j)"
proof (induction xs arbitrary: k row)
  case Nil
  then show ?case by (simp add: empty_range)
next
  case (Cons x xs)
  show ?case
  proof (cases "j = k")
    case True
    have "ordering_row i s1 (enumerate (Suc k) xs) r j = r j" for r :: "nat \<Rightarrow> 'a"
      using Cons.IH [of "Suc k" r] True by simp
    then show ?thesis using True by simp
  next
    case False
    have "ordering_row i s1 (enumerate (Suc k) xs) r j =
       (if Suc k \<le> j \<and> j < Suc k + length xs
        then (if i \<le> j \<and> submap_ge (xs ! (j - Suc k)) s1 then 1 else 0)
        else r j)" for r :: "nat \<Rightarrow> 'a"
      by (rule Cons.IH)
    then show ?thesis using False by (auto simp: nth_Cons' Suc_diff_le)
  qed
qed

lemma ordering_rows_uncancelled:
  assumes "\<not> stop_flag st"
  shows "fst (ordering_rows (\<lambda>_. False) submaps (enumerate k xs) M st) =
     M\<lparr>entries := (\<lambda>i. if k \<le> i \<and> i < k + length xs
                          then ordering_row i (xs ! (i - k)) (enumerate 0 submaps) (entries M i)
                          else entries M i)\<rparr>"
  using assms
proof (induction xs arbitrary: k M st)
  case Nil
  then show ?case by (simp add: empty_range)
next
  case (Cons x xs)
  let ?st = "st\<lparr>cur_matrix_rows_count := Suc (cur_matrix_rows_count st), polls := Suc (polls st)\<rparr>"
  let ?M = "M\<lparr>entries := (entries M)(k := ordering_row k x (enumerate 0 submaps) (entries M k))\<rparr>"
  have "\<not> stop_flag ?st" using Cons.prems by simp
  from Cons.IH [OF this, of "Suc k" ?M]
  show ?case using Cons.prems
    by (auto simp: Let_def fun_eq_iff nth_Cons' Suc_diff_le intro!: WYMatrix.equality)
qed

lemma get_ordering_matrix_uncancelled:
  assumes "\<not> stop_flag st"
  shows "fst (get_ordering_matrix (\<lambda>_. False) heap submaps st) =
     \<lparr>size_m = length submaps,
      entries = (\<lambda>i j. if i < length submaps \<and> j < length submaps
                        then (if i \<le> j \<and> submap_ge (submaps ! j) (submaps ! i) then 1 else 0)
                        else heap i j)\<rparr>"
  unfolding get_ordering_matrix_def
  by (simp add: ordering_rows_uncancelled [OF assms] matrix_init_def ordering_row_at fun_eq_iff)

section \<open>The order matrix is unit-upper-triangular\<close>

lemma disjoint_blocks_nth:
  "disjoint_blocks vs \<Longrightarrow> p < q \<Longrightarrow> q < length vs \<Longrightarrow> set (vs ! p) \<inter> set (vs ! q) = {}"
proof (induction vs arbitrary: p q)
  case Nil
  then show ?case by simp
next
  case (Cons v vs)
  show ?case
  proof (cases p)
    case 0
    with Cons.prems obtain q' where q: "q = Suc q'" "q' < length vs" by (cases q) auto
    with Cons.prems(1) 0 show ?thesis by (auto simp: list_all_iff)
  next
    case (Suc p')
    with Cons.prems obtain q' where q: "q = Suc q'" "q' < length vs" "p' < q'" by (cases q) auto
    with Cons.IH [of p' q'] Cons.prems(1) Suc show ?thesis by simp
  qed
qed

lemma find_node_idx_disjoint:
  assumes "disjoint_blocks (vertices s)" and "p < length (vertices s)" and "n \<in> set (vertices s ! p)"
  shows "find_node_idx s n = int p"
proof -
  have "\<forall>q<p. n \<notin> set (vertices s ! q)"
    using disjoint_blocks_nth [OF assms(1) _ assms(2)] assms(3) by blast
  from find_node_idx_from_at [OF assms(2,3) this, of 0] show ?thesis
    by (simp add: find_node_idx_def)
qed

lemma submap_ge_refl: "disjoint_blocks (vertices s) \<Longrightarrow> submap_ge s s"
  unfolding submap_ge_iff
  by (metis find_node_idx_disjoint in_set_conv_nth)

text \<open>
  Claim C7. The matrix returned by an uncancelled run of \<^verbatim>\<open>get_ordering_matrix\<close> on
  any list of submaps (each a sequence of pairwise disjoint blocks, as the data model has
  it) has the size of the list, 1 at every entry \<open>(i, i)\<close> and 0 at every entry \<open>(i, j)\<close>
  with \<open>i > j\<close>. The list need not come from the enumeration. Uncancelled:
  \<^verbatim>\<open>stop_flag\<close> is clear at the call and every reading of \<^verbatim>\<open>graph_changed\<close> is false.
\<close>

theorem order_matrix_unit_upper_triangular:
  fixes heap :: "nat \<Rightarrow> nat \<Rightarrow> 'a::zero_neq_one"
  assumes "\<not> stop_flag st" and "list_all (\<lambda>s. disjoint_blocks (vertices s)) submaps"
  shows "size_m (fst (get_ordering_matrix (\<lambda>_. False) heap submaps st)) = length submaps
    \<and> (\<forall>i<length submaps. entries (fst (get_ordering_matrix (\<lambda>_. False) heap submaps st)) i i = 1)
    \<and> (\<forall>i<length submaps. \<forall>j<i.
          entries (fst (get_ordering_matrix (\<lambda>_. False) heap submaps st)) i j = 0)"
proof -
  have "submap_ge (submaps ! i) (submaps ! i)" if "i < length submaps" for i
    using assms(2) that by (simp add: list_all_length submap_ge_refl)
  then show ?thesis
    by (simp add: get_ordering_matrix_uncancelled [OF assms(1)])
qed

text \<open>
  Disjoint blocks are needed for the diagonal: in the block sequence below, which is no
  partition, label 1 of the second block is found in the first block and label 2 in the
  second, so \<^verbatim>\<open>submap_ge\<close> of it with itself is false and the entry is written as 0.
\<close>

lemma order_matrix_diagonal_overlapping:
  "\<not> stop_flag st_init
   \<and> entries (fst (get_ordering_matrix (\<lambda>_. False) (\<lambda>_ _. 1) [overlapping] st_init)) 0 0 = (0::int)"
  by code_simp

theorem order_matrix_unit_upper_triangular_witness:
  "\<not> stop_flag st_init \<and> list_all (\<lambda>s. disjoint_blocks (vertices s)) two_blocks
   \<and> size_m (fst (get_ordering_matrix (\<lambda>_. False) (\<lambda>_ _. 5 :: int) two_blocks st_init)) = 2
   \<and> entries (fst (get_ordering_matrix (\<lambda>_. False) (\<lambda>_ _. 5 :: int) two_blocks st_init)) 0 0 = 1
   \<and> entries (fst (get_ordering_matrix (\<lambda>_. False) (\<lambda>_ _. 5 :: int) two_blocks st_init)) 1 1 = 1
   \<and> entries (fst (get_ordering_matrix (\<lambda>_. False) (\<lambda>_ _. 5 :: int) two_blocks st_init)) 1 0 = 0"
proof -
  have h1: "\<not> stop_flag st_init" by (simp add: st_init_def)
  have h2: "list_all (\<lambda>s. disjoint_blocks (vertices s)) two_blocks" by (simp add: two_blocks_def)
  have len: "length two_blocks = 2" by (simp add: two_blocks_def)
  from order_matrix_unit_upper_triangular [OF h1 h2, of "\<lambda>_ _. 5 :: int"] show ?thesis
    using h1 h2 unfolding len by simp
qed

section \<open>Well-formed submaps and their children\<close>

lemma contract_vertices_Some:
  assumes "j < int (length vs)"
  shows "contract_vertices vs i j ks =
     Some (map (\<lambda>k. if int k = i then sort (vs ! k @ vs ! nat j) else vs ! k)
             (filter (\<lambda>k. int k = i \<or> int k \<noteq> j) ks))"
  using assms by (induction ks) auto

lemma filter_neq_upt:
  assumes "b < n"
  shows "filter (\<lambda>k. k \<noteq> b) [0..<n] = [0..<b] @ [Suc b..<n]"
proof -
  have "[0..<n] = [0..<b] @ b # [Suc b..<n]"
    using assms by (metis le_add1 less_imp_add_positive upt_add_eq_append upt_conv_Cons plus_nat.add_0 less_or_eq_imp_le)
  then have "filter (\<lambda>k. k \<noteq> b) [0..<n] = filter (\<lambda>k. k \<noteq> b) [0..<b] @ filter (\<lambda>k. k \<noteq> b) [Suc b..<n]"
    by simp
  also have "filter (\<lambda>k. k \<noteq> b) [0..<b] = [0..<b]" by (rule filter_True) simp
  also have "filter (\<lambda>k. k \<noteq> b) [Suc b..<n] = [Suc b..<n]" by (rule filter_True) simp
  finally show ?thesis .
qed

lemma contract_edges_Cons:
  "contract_edges i j (e # es) = contract_edges i j [e] @ contract_edges i j es"
  by (simp add: Let_def)

lemma contract_edge_valid:
  assumes "valid_edge n e" and "0 \<le> i" and "i < j" and "j < n"
  shows "list_all (valid_edge (n - 1)) (contract_edges i j [e])"
  using assms by (auto simp: Let_def valid_edge_def)

lemma contract_edges_valid:
  assumes "list_all (valid_edge n) es" and "0 \<le> i" and "i < j" and "j < n"
  shows "list_all (valid_edge (n - 1)) (contract_edges i j es)"
  using assms(1)
proof (induction es)
  case Nil
  then show ?case by simp
next
  case (Cons e es)
  then have "valid_edge n e" and "list_all (valid_edge (n - 1)) (contract_edges i j es)"
    by simp_all
  with contract_edge_valid [OF _ assms(2-4)] show ?case
    by (subst contract_edges_Cons) simp
qed

text \<open>The child of a submap with valid edges, in closed form.\<close>

lemma contract_valid:
  assumes "edges_valid s" and "e \<in> set (edges s)"
  shows "contract s e =
     Some \<lparr>vertices = map (\<lambda>k. if int k = lo e then sort (vertices s ! k @ vertices s ! nat (hi e))
                               else vertices s ! k)
                        ([0..<nat (hi e)] @ [Suc (nat (hi e))..<length (vertices s)]),
           edges = contract_edges (lo e) (hi e) (edges s)\<rparr>"
proof -
  from assms have v: "valid_edge (int (length (vertices s))) e"
    by (simp add: edges_valid_def list_all_iff)
  then have b: "0 \<le> lo e" "lo e < hi e" "hi e < int (length (vertices s))"
    by (auto simp: valid_edge_def lo_def hi_def)
  have "(\<lambda>k. int k = lo e \<or> int k \<noteq> hi e) = (\<lambda>k. k \<noteq> nat (hi e))"
  proof (rule ext)
    fix k
    have "int (nat (hi e)) = hi e" using b by simp
    then show "(int k = lo e \<or> int k \<noteq> hi e) = (k \<noteq> nat (hi e))"
      using b(2) by (metis less_irrefl nat_int)
  qed
  moreover have "nat (hi e) < length (vertices s)" using b by simp
  ultimately show ?thesis
    using b(3) by (simp add: contract_def Let_def contract_vertices_Some filter_neq_upt lo_def [symmetric] hi_def [symmetric])
qed

lemma contract_valid_props:
  assumes "edges_valid s" and "e \<in> set (edges s)" and "contract s e = Some c"
  shows "edges_valid c" and "Suc (length (vertices c)) = length (vertices s)"
proof -
  from assms(1,2) have v: "valid_edge (int (length (vertices s))) e"
    by (simp add: edges_valid_def list_all_iff)
  then have b: "0 \<le> lo e" "lo e < hi e" "hi e < int (length (vertices s))"
    by (auto simp: valid_edge_def lo_def hi_def)
  from contract_valid [OF assms(1,2)] assms(3)
  have c: "c = \<lparr>vertices = map (\<lambda>k. if int k = lo e then sort (vertices s ! k @ vertices s ! nat (hi e))
                               else vertices s ! k)
                        ([0..<nat (hi e)] @ [Suc (nat (hi e))..<length (vertices s)]),
           edges = contract_edges (lo e) (hi e) (edges s)\<rparr>" by simp
  show len: "Suc (length (vertices c)) = length (vertices s)"
    using b by (simp add: c)
  have "list_all (valid_edge (int (length (vertices s)) - 1)) (contract_edges (lo e) (hi e) (edges s))"
    using assms(1) b by (intro contract_edges_valid) (simp_all add: edges_valid_def)
  moreover have "int (length (vertices c)) = int (length (vertices s)) - 1" using len by linarith
  ultimately show "edges_valid c"
    by (simp add: edges_valid_def c)
qed

lemma collect_map_Some:
  "\<forall>x\<in>set xs. \<exists>y. f x = Some y \<Longrightarrow> \<exists>ys. collect (map f xs) = Some ys"
  by (induction xs) auto

lemma get_direct_submaps_valid:
  assumes "edges_valid s"
  shows "\<exists>cs. get_direct_submaps s = Some cs"
  unfolding get_direct_submaps_def
  by (rule collect_map_Some) (use contract_valid [OF assms] in blast)

lemma get_direct_submaps_child:
  assumes "edges_valid s" and "get_direct_submaps s = Some cs" and "c \<in> set cs"
  shows "edges_valid c" and "Suc (length (vertices c)) = length (vertices s)"
  using get_direct_submaps_contract [OF assms(2,3)] contract_valid_props [OF assms(1)]
  by blast+

section \<open>The Submap invariants under contraction\<close>

lemma from_graph_length: "length (vertices (from_graph n es)) = nat n"
  by (simp add: from_graph_def)

lemma valid_edge_mono: "valid_edge n e \<Longrightarrow> n \<le> m \<Longrightarrow> valid_edge m e"
  by (auto simp: valid_edge_def)

lemma from_graph_edges_valid:
  "list_all (valid_edge n) es \<Longrightarrow> edges_valid (from_graph n es)"
  by (auto simp: edges_valid_def from_graph_def list_all_iff intro: valid_edge_mono)

lemma get_direct_submaps_total:
  assumes "edges_valid s"
  shows "\<exists>cs. get_direct_submaps s = Some cs \<and> list_all edges_valid cs
            \<and> list_all (\<lambda>c. Suc (length (vertices c)) = length (vertices s)) cs"
proof -
  from get_direct_submaps_valid [OF assms] obtain cs where cs: "get_direct_submaps s = Some cs" ..
  with get_direct_submaps_child [OF assms cs] show ?thesis
    by (auto simp: list_all_iff)
qed

text \<open>
  Claim C3, amended. The initial submap that \<^verbatim>\<open>from_graph\<close> builds from a simple graph
  satisfies the Submap invariants (every edge has two valid, distinct block indices and
  no two edges are the same unordered pair). For a submap whose edges all have two valid,
  distinct block indices, \<^verbatim>\<open>get_direct_submaps\<close> reads nothing out of range and every
  child it returns again has only edges with two valid, distinct block indices. Nothing
  is promised about duplicate edges of a child.
\<close>

theorem submap_edges_valid:
  "(simple_graph n es \<longrightarrow> submap_invariants (from_graph n es))
   \<and> (edges_valid s \<longrightarrow> (\<exists>cs. get_direct_submaps s = Some cs \<and> list_all edges_valid cs))"
proof (intro conjI impI)
  assume "simple_graph n es"
  then have "edges_valid (from_graph n es)" and "no_duplicate_edges (edges (from_graph n es))"
    by (simp_all add: simple_graph_def from_graph_edges_valid) (simp add: from_graph_def)
  then show "submap_invariants (from_graph n es)"
    by (simp add: submap_invariants_def)
next
  assume "edges_valid s"
  from get_direct_submaps_total [OF this]
  show "\<exists>cs. get_direct_submaps s = Some cs \<and> list_all edges_valid cs" by blast
qed

theorem submap_edges_valid_witness:
  "simple_graph 3 triangle \<and> submap_invariants (from_graph 3 triangle)
   \<and> edges_valid (from_graph 3 triangle)
   \<and> (\<exists>cs. get_direct_submaps (from_graph 3 triangle) = Some cs \<and> list_all edges_valid cs)"
proof -
  have h1: "simple_graph 3 triangle" by code_simp
  have h2: "edges_valid (from_graph 3 triangle)" by code_simp
  from submap_edges_valid [of 3 triangle "from_graph 3 triangle"] h1 h2 show ?thesis by simp
qed

text \<open>
  Claim C3 as stated fails for children: contracting the edge (0,1) of the triangle
  redirects both (0,2) and (1,2) to the pair (0,1), and the child keeps both copies.
\<close>

theorem contraction_duplicate_edge_counterexample:
  "submap_invariants (from_graph 3 triangle)
   \<and> get_direct_submaps (from_graph 3 triangle) =
       Some [\<lparr>vertices = [[0, 1], [2]],
               edges = [\<lparr>start_idx = 0, end_idx = 1\<rparr>, \<lparr>start_idx = 0, end_idx = 1\<rparr>]\<rparr>,
             \<lparr>vertices = [[0, 2], [1]],
               edges = [\<lparr>start_idx = 0, end_idx = 1\<rparr>, \<lparr>start_idx = 0, end_idx = 1\<rparr>]\<rparr>,
             \<lparr>vertices = [[0], [1, 2]],
               edges = [\<lparr>start_idx = 0, end_idx = 1\<rparr>, \<lparr>start_idx = 0, end_idx = 1\<rparr>]\<rparr>]
   \<and> \<not> submap_invariants \<lparr>vertices = [[0, 1], [2]],
               edges = [\<lparr>start_idx = 0, end_idx = 1\<rparr>, \<lparr>start_idx = 0, end_idx = 1\<rparr>]\<rparr>"
  by code_simp

section \<open>Canonical block order\<close>

lemma contract_vertices_result:
  "contract_vertices vs i j ks = Some res \<Longrightarrow>
   res = map (\<lambda>k. if int k = i then sort (vs ! k @ vs ! nat j) else vs ! k)
           (filter (\<lambda>k. int k = i \<or> int k \<noteq> j) ks)
   \<and> (i \<in> int ` set ks \<longrightarrow> j < int (length vs))"
proof (induction ks arbitrary: res)
  case Nil
  then show ?case by simp
next
  case (Cons k ks)
  then show ?case by (auto split: if_splits)
qed

lemma canonical_blocks_nth:
  assumes "canonical_blocks vs" and "p < q" and "q < length vs"
  shows "Min (set (vs ! p)) < Min (set (vs ! q))"
  using assms by (simp add: canonical_blocks_def sorted_wrt_iff_nth_less)

lemma merged_Min:
  assumes "canonical_blocks vs" and "a \<le> b" and "b < length vs"
  shows "Min (set (sort (vs ! a @ vs ! b))) = Min (set (vs ! a))"
proof -
  have ne: "vs ! a \<noteq> []" "vs ! b \<noteq> []"
    using assms by (simp_all add: canonical_blocks_def list_all_length)
  have "Min (set (vs ! a)) \<le> Min (set (vs ! b))"
    using canonical_blocks_nth [OF assms(1) _ assms(3), of a] assms(2)
    by (cases "a = b") auto
  moreover have "Min (set (vs ! a) \<union> set (vs ! b)) = min (Min (set (vs ! a))) (Min (set (vs ! b)))"
    using ne by (intro Min_Un) simp_all
  ultimately show ?thesis by (simp add: min_def)
qed

lemma contract_canonical:
  assumes "canonical_blocks (vertices s)" and "contract s e = Some c"
  shows "canonical_blocks (vertices c)"
proof -
  let ?vs = "vertices s"
  define f where "f = (\<lambda>k. if int k = lo e then sort (?vs ! k @ ?vs ! nat (hi e)) else ?vs ! k)"
  define ks where "ks = filter (\<lambda>k. int k = lo e \<or> int k \<noteq> hi e) [0..<length ?vs]"
  have le: "lo e \<le> hi e" by (simp add: lo_def hi_def)
  from assms(2) obtain res where res: "contract_vertices ?vs (lo e) (hi e) [0..<length ?vs] = Some res"
    and c: "vertices c = res"
    by (auto simp: contract_def Let_def lo_def hi_def split: option.splits)
  from contract_vertices_result [OF res]
  have eq: "res = map f ks" and rng: "lo e \<in> int ` set [0..<length ?vs] \<longrightarrow> hi e < int (length ?vs)"
    by (simp_all add: f_def ks_def)
  have ks: "\<And>k. k \<in> set ks \<Longrightarrow> k < length ?vs" by (simp add: ks_def)
  have blocks: "\<And>k. k < length ?vs \<Longrightarrow> ?vs ! k \<noteq> [] \<and> sorted (?vs ! k)"
    using assms(1) by (simp add: canonical_blocks_def list_all_length)
  have f_ok: "f k \<noteq> [] \<and> sorted (f k) \<and> Min (set (f k)) = Min (set (?vs ! k))"
    if "k < length ?vs" for k
  proof (cases "int k = lo e")
    case True
    have "lo e \<in> int ` set [0..<length ?vs]"
      using that True by (auto simp: image_iff intro!: bexI [of _ k])
    with rng have "hi e < int (length ?vs)" by simp
    with True le have hi: "nat (hi e) < length ?vs" "k \<le> nat (hi e)" by linarith+
    have "sort (?vs ! k @ ?vs ! nat (hi e)) \<noteq> []"
      using blocks [OF that] by (metis append_is_Nil_conv length_0_conv length_sort)
    with True merged_Min [OF assms(1) hi(2,1)] show ?thesis by (simp add: f_def)
  next
    case False
    with blocks [OF that] show ?thesis by (simp add: f_def)
  qed
  have "list_all (\<lambda>v. v \<noteq> [] \<and> sorted v) res"
    unfolding eq list_all_iff using f_ok ks by auto
  moreover have "sorted_wrt (<) (map (\<lambda>v. Min (set v)) res)"
  proof -
    have "map (\<lambda>v. Min (set v)) res = map (\<lambda>k. Min (set (?vs ! k))) ks"
      unfolding eq using f_ok ks by simp
    moreover have "sorted_wrt (<) (map (\<lambda>k. Min (set (?vs ! k))) [0..<length ?vs])"
    proof -
      have "map (\<lambda>k. Min (set (?vs ! k))) [0..<length ?vs] = map (\<lambda>v. Min (set v)) ?vs"
        by (simp add: map_equality_iff)
      with assms(1) show ?thesis by (simp add: canonical_blocks_def)
    qed
    then have "sorted_wrt (<) (map (\<lambda>k. Min (set (?vs ! k))) ks)"
      unfolding sorted_wrt_map ks_def by (rule sorted_wrt_filter)
    ultimately show ?thesis by simp
  qed
  ultimately show ?thesis by (simp add: canonical_blocks_def c)
qed

lemma canonical_blocks_unique:
  assumes "canonical_blocks vs1" and "canonical_blocks vs2"
    and "distinct (concat vs1)" and "distinct (concat vs2)"
    and "set ` set vs1 = set ` set vs2"
  shows "vs1 = vs2"
proof -
  let ?m = "\<lambda>v::int list. Min (set v)"
  have sd: "sorted (map ?m vs) \<and> distinct (map ?m vs)" if "canonical_blocks vs" for vs
    using that by (simp add: canonical_blocks_def strict_sorted_iff)
  have "set (map ?m vs1) = set (map ?m vs2)"
  proof -
    have "set (map ?m vs) = Min ` (set ` set vs)" for vs :: "int list list"
      by (simp add: image_image)
    with assms(5) show ?thesis by simp
  qed
  with sd [OF assms(1)] sd [OF assms(2)] have keys: "map ?m vs1 = map ?m vs2"
    by (intro sorted_distinct_set_unique) simp_all
  then have len: "length vs1 = length vs2" by (rule map_eq_imp_length_eq)
  have "vs1 ! p = vs2 ! p" if p: "p < length vs1" for p
  proof -
    have "set (vs1 ! p) \<in> set ` set vs1" using p by simp
    then have "set (vs1 ! p) \<in> set ` set vs2" using assms(5) by simp
    then obtain q where q: "q < length vs2" "set (vs2 ! q) = set (vs1 ! p)"
      by (auto simp: in_set_conv_nth)
    have "?m (vs2 ! q) = ?m (vs1 ! p)" using q by simp
    also have "\<dots> = ?m (vs2 ! p)"
      using keys p len by (metis length_map nth_map)
    finally have mq: "map ?m vs2 ! q = map ?m vs2 ! p" using q p len by simp
    have "(map ?m vs2 ! q = map ?m vs2 ! p) = (q = p)"
      by (rule nth_eq_iff_index_eq) (use sd [OF assms(2)] q p len in simp_all)
    with mq have "q = p" by blast
    with q have sets: "set (vs1 ! p) = set (vs2 ! p)" by simp
    have "sorted (vs1 ! p)" "sorted (vs2 ! p)"
      using assms(1,2) p len by (simp_all add: canonical_blocks_def list_all_length)
    moreover have "distinct (vs1 ! p)" "distinct (vs2 ! p)"
      using assms(3,4) p len by (simp_all add: distinct_concat_iff)
    ultimately show ?thesis using sets by (intro sorted_distinct_set_unique)
  qed
  with len show ?thesis by (simp add: list_eq_iff_nth_eq)
qed

text \<open>
  Claim C10. If the blocks of a submap are each sorted ascending and the block sequence is
  ordered by strictly increasing minimum label, then so is every child that
  \<^verbatim>\<open>get_direct_submaps\<close> returns. Hence two submaps in this form that stand for the
  same partition (no label twice, the same set of label sets) have the same block
  sequence, whatever order of contractions led to them, and the element-wise block
  comparison of \<^verbatim>\<open>submap_eq\<close> finds them equal.
\<close>

theorem canonical_block_order:
  "(canonical_blocks (vertices s) \<and> get_direct_submaps s = Some cs
      \<longrightarrow> list_all (\<lambda>c. canonical_blocks (vertices c)) cs)
   \<and> (canonical_blocks (vertices s1) \<and> canonical_blocks (vertices s2)
        \<and> distinct (concat (vertices s1)) \<and> distinct (concat (vertices s2))
        \<and> set ` set (vertices s1) = set ` set (vertices s2)
      \<longrightarrow> array_eq vertex_eq (vertices s1) (vertices s2))"
proof (intro conjI impI)
  assume a: "canonical_blocks (vertices s) \<and> get_direct_submaps s = Some cs"
  show "list_all (\<lambda>c. canonical_blocks (vertices c)) cs"
    unfolding list_all_iff
  proof
    fix c assume "c \<in> set cs"
    with a get_direct_submaps_contract obtain e where "contract s e = Some c" by blast
    with a show "canonical_blocks (vertices c)" by (blast intro: contract_canonical)
  qed
next
  assume "canonical_blocks (vertices s1) \<and> canonical_blocks (vertices s2)
        \<and> distinct (concat (vertices s1)) \<and> distinct (concat (vertices s2))
        \<and> set ` set (vertices s1) = set ` set (vertices s2)"
  then have "vertices s1 = vertices s2" by (blast intro: canonical_blocks_unique)
  moreover have "list_all2 vertex_eq = (=)"
    by (simp add: vertex_eq_iff [abs_def] list.rel_eq)
  ultimately show "array_eq vertex_eq (vertices s1) (vertices s2)"
    by (simp add: array_eq_iff)
qed

theorem canonical_block_order_witness:
  "canonical_blocks (vertices two_edges)
   \<and> get_direct_submaps two_edges = Some (the (get_direct_submaps two_edges))
   \<and> list_all (\<lambda>c. canonical_blocks (vertices c)) (the (get_direct_submaps two_edges))
   \<and> canonical_blocks (vertices first_then_second) \<and> canonical_blocks (vertices second_then_first)
   \<and> distinct (concat (vertices first_then_second)) \<and> distinct (concat (vertices second_then_first))
   \<and> set ` set (vertices first_then_second) = set ` set (vertices second_then_first)
   \<and> array_eq vertex_eq (vertices first_then_second) (vertices second_then_first)"
proof -
  have h1: "canonical_blocks (vertices two_edges)" by code_simp
  have h2: "get_direct_submaps two_edges = Some (the (get_direct_submaps two_edges))" by code_simp
  have h3: "canonical_blocks (vertices first_then_second)" by code_simp
  have h4: "canonical_blocks (vertices second_then_first)" by code_simp
  have h5: "distinct (concat (vertices first_then_second))" by code_simp
  have h6: "distinct (concat (vertices second_then_first))" by code_simp
  have h7: "set ` set (vertices first_then_second) = set ` set (vertices second_then_first)"
    by code_simp
  from canonical_block_order [of two_edges "the (get_direct_submaps two_edges)"
      first_then_second second_then_first] h1 h2 h3 h4 h5 h6 h7
  show ?thesis by blast
qed

section \<open>The enumeration\<close>

declare handle.simps [simp del]

lemma handle_cases:
  assumes "handle gc s st = Some st'"
  obtains (stop) "gc (polls st) \<or> stop_flag st"
      and "st' = st\<lparr>polls := Suc (polls st), stop_flag := True\<rparr>"
  | (inside) "\<not> (gc (polls st) \<or> stop_flag st)" and "s \<in> set (all_submaps st)"
      and "st' = st\<lparr>polls := Suc (polls st)\<rparr>"
  | (fresh) ds st1 where
        "\<not> (gc (polls st) \<or> stop_flag (st\<lparr>polls := Suc (polls st)\<rparr>))"
      and "\<not> in_submap_array (all_submaps (st\<lparr>polls := Suc (polls st)\<rparr>)) s"
      and "get_direct_submaps s = Some ds"
      and "1 < length (vertices s) \<Longrightarrow> handle_each gc ds (st\<lparr>polls := Suc (polls st)\<rparr>) = Some st1"
      and "\<not> 1 < length (vertices s) \<Longrightarrow> st1 = st\<lparr>polls := Suc (polls st)\<rparr>"
      and "st' = st1\<lparr>cur_submap_count := Suc (cur_submap_count st1),
                      all_submaps := all_submaps st1 @ [s]\<rparr>"
  using assms
  by (subst (asm) handle.simps)
     (auto simp: Let_def in_submap_array_iff split: if_splits option.splits)

lemma handle_inside:
  assumes "\<not> (gc (polls st) \<or> stop_flag st)" and "s \<in> set (all_submaps st)"
  shows "handle gc s st = Some (st\<lparr>polls := Suc (polls st)\<rparr>)"
  using assms by (subst handle.simps) (simp add: Let_def in_submap_array_iff)

lemma handle_fresh:
  assumes "\<not> (gc (polls st) \<or> stop_flag st)" and "s \<notin> set (all_submaps st)"
    and "get_direct_submaps s = Some ds"
    and "(if 1 < length (vertices s) then handle_each gc ds (st\<lparr>polls := Suc (polls st)\<rparr>)
         else Some (st\<lparr>polls := Suc (polls st)\<rparr>)) = Some st1"
  shows "handle gc s st = Some (st1\<lparr>cur_submap_count := Suc (cur_submap_count st1),
                                     all_submaps := all_submaps st1 @ [s]\<rparr>)"
  using assms by (subst handle.simps) (simp add: Let_def in_submap_array_iff)

text \<open>
  Whatever the signal does, a run that returns has only appended to the list, and every
  submap it appended is the argument or was reached from it by contractions: it
  satisfies every property of the argument that contraction preserves.
\<close>

lemma handle_new:
  assumes closed: "\<And>x e c. Q x \<Longrightarrow> e \<in> set (edges x) \<Longrightarrow> contract x e = Some c \<Longrightarrow> Q c"
  shows "\<forall>st'. handle gc s st = Some st' \<longrightarrow> Q s \<longrightarrow>
           (\<exists>new. all_submaps st' = all_submaps st @ new \<and> (\<forall>x\<in>set new. Q x))"
    and "\<forall>st'. handle_each gc cs st = Some st' \<longrightarrow> (\<forall>c\<in>set cs. Q c) \<longrightarrow>
           (\<exists>new. all_submaps st' = all_submaps st @ new \<and> (\<forall>x\<in>set new. Q x))"
proof (induction gc s st and gc cs st rule: handle_handle_each.induct)
  case (1 gc submap st0)
  show ?case
  proof (intro allI impI)
    fix st'
    assume h: "handle gc submap st0 = Some st'" and q: "Q submap"
    from h show "\<exists>new. all_submaps st' = all_submaps st0 @ new \<and> (\<forall>x\<in>set new. Q x)"
    proof (cases rule: handle_cases)
      case stop
      then show ?thesis by simp
    next
      case inside
      then show ?thesis by simp
    next
      case (fresh ds st1)
      have children: "\<forall>c\<in>set ds. Q c"
        using get_direct_submaps_contract [OF fresh(3)] closed [OF q] by blast
      have "\<exists>new. all_submaps st1 = all_submaps st0 @ new \<and> (\<forall>x\<in>set new. Q x)"
      proof (cases "1 < length (vertices submap)")
        case True
        from "1.IH" [OF refl fresh(1) fresh(2) fresh(3) True] fresh(4) [OF True] children
        show ?thesis by simp
      next
        case False
        with fresh(5) show ?thesis by simp
      qed
      then obtain new where "all_submaps st1 = all_submaps st0 @ new" and "\<forall>x\<in>set new. Q x"
        by blast
      with fresh(6) q have "all_submaps st' = all_submaps st0 @ (new @ [submap])
          \<and> (\<forall>x\<in>set (new @ [submap]). Q x)" by simp
      then show ?thesis by blast
    qed
  qed
next
  case (2 gc st)
  then show ?case by simp
next
  case (3 gc direct_submap rest st)
  show ?case
  proof (intro allI impI)
    fix st'
    assume h: "handle_each gc (direct_submap # rest) st = Some st'"
      and q: "\<forall>c\<in>set (direct_submap # rest). Q c"
    from h obtain st1 where h1: "handle gc direct_submap st = Some st1"
      and h2: "handle_each gc rest st1 = Some st'"
      by (auto split: option.splits)
    from "3.IH"(1) h1 q obtain new1 where n1: "all_submaps st1 = all_submaps st @ new1"
      "\<forall>x\<in>set new1. Q x" by auto
    from "3.IH"(2) [OF h1] h2 q obtain new2 where n2: "all_submaps st' = all_submaps st1 @ new2"
      "\<forall>x\<in>set new2. Q x" by auto
    from n1 n2 have "all_submaps st' = all_submaps st @ (new1 @ new2)
        \<and> (\<forall>x\<in>set (new1 @ new2). Q x)" by auto
    then show "\<exists>new. all_submaps st' = all_submaps st @ new \<and> (\<forall>x\<in>set new. Q x)" by blast
  qed
qed

lemma children_first_snoc:
  assumes "children_first L" and "get_direct_submaps s = Some ds" and "set ds \<subseteq> set L"
  shows "children_first (L @ [s])"
  unfolding children_first_def
proof (intro allI impI ballI)
  fix p cs c
  assume p: "p < length (L @ [s])" and cs: "get_direct_submaps ((L @ [s]) ! p) = Some cs"
    and c: "c \<in> set cs"
  show "\<exists>q<p. (L @ [s]) ! q = c"
  proof (cases "p < length L")
    case True
    then have "get_direct_submaps (L ! p) = Some cs" using cs by (simp add: nth_append)
    with assms(1) True c obtain q where q: "q < p" "L ! q = c"
      unfolding children_first_def by blast
    with True have "(L @ [s]) ! q = c" by (simp add: nth_append)
    with q show ?thesis by blast
  next
    case False
    with p have pl: "p = length L" by simp
    with cs assms(2) have "cs = ds" by simp
    with c assms(3) have "c \<in> set L" by auto
    then obtain q where q: "q < length L" "L ! q = c"
      by (auto simp: in_set_conv_nth)
    then have "(L @ [s]) ! q = c" by (simp add: nth_append)
    with q pl show ?thesis by blast
  qed
qed

lemma edges_valid_single_block:
  assumes "edges_valid s" and "\<not> 1 < length (vertices s)"
  shows "edges s = []"
proof (rule ccontr)
  assume "edges s \<noteq> []"
  then obtain e where "e \<in> set (edges s)" by (cases "edges s") auto
  with assms(1) have "valid_edge (int (length (vertices s))) e"
    by (simp add: edges_valid_def list_all_iff)
  with assms(2) show False by (auto simp: valid_edge_def)
qed

lemma handle_only_appends:
  "handle gc s st = Some st' \<Longrightarrow> \<exists>new. all_submaps st' = all_submaps st @ new"
  using handle_new(1) [where Q = "\<lambda>_. True" and gc = gc and s = s and st = st] by blast

lemma handle_each_fewer_edges:
  assumes "handle_each gc ds st = Some st'" and "get_direct_submaps s = Some ds"
  shows "\<exists>new. all_submaps st' = all_submaps st @ new
           \<and> (\<forall>x\<in>set new. length (edges x) < length (edges s))"
proof -
  have "\<forall>st'. handle_each gc ds st = Some st' \<longrightarrow>
      (\<forall>c\<in>set ds. length (edges c) < length (edges s)) \<longrightarrow>
      (\<exists>new. all_submaps st' = all_submaps st @ new
         \<and> (\<forall>x\<in>set new. length (edges x) < length (edges s)))"
  proof (rule handle_new(2))
    fix x e c
    assume "length (edges x) < length (edges s)" "e \<in> set (edges x)" "contract x e = Some c"
    with contract_fewer_edges [of x e c] show "length (edges c) < length (edges s)" by simp
  qed
  moreover have "\<forall>c\<in>set ds. length (edges c) < length (edges s)"
    using assms(2) by (auto dest: get_direct_submaps_fewer_edges)
  ultimately show ?thesis using assms(1) by blast
qed

text \<open>
  An uncancelled run on a submap with valid edges returns, leaves \<^verbatim>\<open>stop_flag\<close>
  clear, keeps the invariant of the list and has the submap in the list afterwards.
\<close>

lemma handle_total:
  shows "gc = (\<lambda>_. False) \<longrightarrow> edges_valid s \<longrightarrow> \<not> stop_flag st \<longrightarrow> found_ok (all_submaps st) \<longrightarrow>
           (\<exists>st'. handle gc s st = Some st' \<and> \<not> stop_flag st' \<and> found_ok (all_submaps st')
              \<and> s \<in> set (all_submaps st')
              \<and> (s \<notin> set (all_submaps st) \<longrightarrow> last (all_submaps st') = s))"
    and "gc = (\<lambda>_. False) \<longrightarrow> (\<forall>c\<in>set cs. edges_valid c) \<longrightarrow> \<not> stop_flag st \<longrightarrow>
           found_ok (all_submaps st) \<longrightarrow>
           (\<exists>st'. handle_each gc cs st = Some st' \<and> \<not> stop_flag st' \<and> found_ok (all_submaps st')
              \<and> set cs \<subseteq> set (all_submaps st'))"
proof (induction gc s st and gc cs st rule: handle_handle_each.induct)
  case (1 gc submap st0)
  show ?case
  proof (intro impI)
    assume gc: "gc = (\<lambda>_. False)" and valid: "edges_valid submap" and ns: "\<not> stop_flag st0"
      and ok: "found_ok (all_submaps st0)"
    let ?st = "st0\<lparr>polls := Suc (polls st0)\<rparr>"
    have go: "\<not> (gc (polls st0) \<or> stop_flag st0)" using gc ns by simp
    show "\<exists>st'. handle gc submap st0 = Some st' \<and> \<not> stop_flag st' \<and> found_ok (all_submaps st')
              \<and> submap \<in> set (all_submaps st')
              \<and> (submap \<notin> set (all_submaps st0) \<longrightarrow> last (all_submaps st') = submap)"
    proof (cases "submap \<in> set (all_submaps st0)")
      case True
      from handle_inside [where gc = gc and st = st0 and s = submap, OF go True] ns ok True
      show ?thesis by simp
    next
      case False
      from get_direct_submaps_total [OF valid] obtain ds where ds: "get_direct_submaps submap = Some ds"
        and dsv: "list_all edges_valid ds" by blast
      have "\<exists>st1. (if 1 < length (vertices submap) then handle_each gc ds ?st else Some ?st) = Some st1
          \<and> \<not> stop_flag st1 \<and> found_ok (all_submaps st1) \<and> set ds \<subseteq> set (all_submaps st1)
          \<and> submap \<notin> set (all_submaps st1)"
      proof (cases "1 < length (vertices submap)")
        case True
        have a: "\<not> (gc (polls st0) \<or> stop_flag ?st)" using go by simp
        have b: "\<not> in_submap_array (all_submaps ?st) submap"
          using False by (simp add: in_submap_array_iff)
        from "1.IH" [OF refl a b ds True] gc dsv ns ok
        obtain st1 where st1: "handle_each gc ds ?st = Some st1" "\<not> stop_flag st1"
          "found_ok (all_submaps st1)" "set ds \<subseteq> set (all_submaps st1)"
          by (auto simp: list_all_iff)
        from handle_each_fewer_edges [OF st1(1) ds] False
        have "submap \<notin> set (all_submaps st1)" by auto
        with st1 True show ?thesis by simp
      next
        case one: False
        from edges_valid_single_block [OF valid one] ds have "ds = []"
          by (simp add: get_direct_submaps_def)
        with one ns ok False show ?thesis by simp
      qed
      then obtain st1 where st1:
        "(if 1 < length (vertices submap) then handle_each gc ds ?st else Some ?st) = Some st1"
        "\<not> stop_flag st1" "found_ok (all_submaps st1)" "set ds \<subseteq> set (all_submaps st1)"
        "submap \<notin> set (all_submaps st1)" by blast
      have "found_ok (all_submaps st1 @ [submap])"
        using st1(3,5) valid children_first_snoc [OF _ ds st1(4)]
        by (simp add: found_ok_def)
      with handle_fresh [where gc = gc and st = st0 and s = submap, OF go False ds st1(1)] st1(2)
      show ?thesis by simp
    qed
  qed
next
  case (2 gc st)
  then show ?case by simp
next
  case (3 gc direct_submap rest st)
  show ?case
  proof (intro impI)
    assume gc: "gc = (\<lambda>_. False)" and valid: "\<forall>c\<in>set (direct_submap # rest). edges_valid c"
      and ns: "\<not> stop_flag st" and ok: "found_ok (all_submaps st)"
    from "3.IH"(1) gc valid ns ok obtain st1 where st1: "handle gc direct_submap st = Some st1"
      "\<not> stop_flag st1" "found_ok (all_submaps st1)" "direct_submap \<in> set (all_submaps st1)"
      by auto
    from "3.IH"(2) [OF st1(1)] gc valid st1(2,3) obtain st' where st':
      "handle_each gc rest st1 = Some st'" "\<not> stop_flag st'" "found_ok (all_submaps st')"
      "set rest \<subseteq> set (all_submaps st')" by auto
    from st'(1) have "\<exists>new. all_submaps st' = all_submaps st1 @ new"
      using handle_new(2) [where Q = "\<lambda>_. True" and gc = gc and cs = rest and st = st1] by blast
    with st1(4) have "direct_submap \<in> set (all_submaps st')" by auto
    with st1(1) st' show "\<exists>st'. handle_each gc (direct_submap # rest) st = Some st'
        \<and> \<not> stop_flag st' \<and> found_ok (all_submaps st')
        \<and> set (direct_submap # rest) \<subseteq> set (all_submaps st')" by simp
  qed
qed

lemma found_ok_Nil: "found_ok []"
  by (simp add: found_ok_def children_first_def)

lemma get_all_submaps_total:
  assumes "edges_valid s" and "\<not> stop_flag st"
  shows "\<exists>L st'. get_all_submaps (\<lambda>_. False) s st = Some (L, st') \<and> \<not> stop_flag st'
            \<and> found_ok L \<and> L \<noteq> [] \<and> last L = s"
proof -
  let ?st = "st\<lparr>all_submaps := []\<rparr>"
  from handle_total(1) [of "\<lambda>_. False" s ?st] assms found_ok_Nil
  obtain st' where st': "handle (\<lambda>_. False) s ?st = Some st'" "found_ok (all_submaps st')"
    "s \<in> set (all_submaps st')" "last (all_submaps st') = s"
    by auto
  then have "all_submaps st' \<noteq> []" by auto
  with st' show ?thesis by (simp add: get_all_submaps_def)
qed

text \<open>
  Claim C6. An uncancelled run of \<^verbatim>\<open>get_all_submaps\<close> on a submap whose edges all have
  two valid, distinct block indices (as the submap of a well-formed input graph has)
  returns a list in which, for every submap at an index \<open>p\<close>, every occurrence of a
  direct child of it is at an index below \<open>p\<close>, and whose last element is the
  input submap.
\<close>

theorem enumeration_order:
  assumes "edges_valid s" and "\<not> stop_flag st"
  shows "\<exists>L st'. get_all_submaps (\<lambda>_. False) s st = Some (L, st') \<and> L \<noteq> [] \<and> last L = s
    \<and> (\<forall>p<length L. \<forall>cs. get_direct_submaps (L ! p) = Some cs \<longrightarrow>
          (\<forall>c\<in>set cs. \<forall>q<length L. L ! q = c \<longrightarrow> q < p))"
proof -
  from get_all_submaps_total [OF assms] obtain L st' where
    L: "get_all_submaps (\<lambda>_. False) s st = Some (L, st')" "found_ok L" "L \<noteq> []" "last L = s"
    by blast
  have "q < p" if "p < length L" "get_direct_submaps (L ! p) = Some cs" "c \<in> set cs"
    "q < length L" "L ! q = c" for p cs c q
  proof -
    from L(2) that(1-3) obtain q' where q': "q' < p" "L ! q' = c"
      unfolding found_ok_def children_first_def by blast
    have "distinct L" using L(2) by (simp add: found_ok_def)
    moreover have "q' < length L" using q'(1) that(1) by simp
    ultimately have "(L ! q' = L ! q) = (q' = q)" using that(4) by (intro nth_eq_iff_index_eq)
    with that(5) q'(2) have "q' = q" by simp
    with q'(1) show ?thesis by simp
  qed
  with L show ?thesis by blast
qed

theorem enumeration_order_witness:
  "edges_valid (from_graph 3 triangle) \<and> \<not> stop_flag st_init
   \<and> (\<exists>L st'. get_all_submaps (\<lambda>_. False) (from_graph 3 triangle) st_init = Some (L, st')
         \<and> L \<noteq> [] \<and> last L = from_graph 3 triangle
         \<and> (\<forall>p<length L. \<forall>cs. get_direct_submaps (L ! p) = Some cs \<longrightarrow>
               (\<forall>c\<in>set cs. \<forall>q<length L. L ! q = c \<longrightarrow> q < p)))"
proof -
  have h1: "edges_valid (from_graph 3 triangle)" by code_simp
  have h2: "\<not> stop_flag st_init" by code_simp
  from enumeration_order [OF h1 h2] h1 h2 show ?thesis by blast
qed

text \<open>
  Valid edges are needed for the order. A submap with a single block is listed without
  its children being visited; with valid edges it has none. In the malformed input below
  the first submap found has one block and still an edge, and its child is found later,
  as the child of another submap.
\<close>

lemma enumeration_order_stray_edge:
  "map_option fst (get_all_submaps (\<lambda>_. False) stray_edge st_init) =
     Some [\<lparr>vertices = [[0, 1]], edges = [\<lparr>start_idx = 4, end_idx = 6\<rparr>]\<rparr>,
           \<lparr>vertices = [[0, 1]], edges = []\<rparr>,
           \<lparr>vertices = [[0], [1]], edges = [\<lparr>start_idx = 0, end_idx = 1\<rparr>]\<rparr>,
           stray_edge]
   \<and> get_direct_submaps \<lparr>vertices = [[0, 1]], edges = [\<lparr>start_idx = 4, end_idx = 6\<rparr>]\<rparr>
       = Some [\<lparr>vertices = [[0, 1]], edges = []\<rparr>]
   \<and> \<not> edges_valid stray_edge"
  by code_simp

section \<open>The leading coefficient\<close>

text \<open>Everything listed before the input submap has fewer blocks, and at least one.\<close>

lemma get_all_submaps_shape:
  assumes "get_all_submaps (\<lambda>_. False) s st = Some (L, st')" and "edges_valid s"
    and "\<not> stop_flag st"
  shows "\<exists>L1. L = L1 @ [s]
    \<and> (\<forall>x\<in>set L1. edges_valid x \<and> 1 \<le> length (vertices x)
                       \<and> length (vertices x) < length (vertices s))"
proof -
  let ?Q = "\<lambda>x. edges_valid x \<and> 1 \<le> length (vertices x) \<and> length (vertices x) < length (vertices s)"
  let ?st = "st\<lparr>all_submaps := []\<rparr>"
  from assms(1) obtain st1 where h: "handle (\<lambda>_. False) s ?st = Some st1" and L: "L = all_submaps st1"
    by (auto simp: get_all_submaps_def split: option.splits)
  have closed: "?Q c" if "?Q x" "e \<in> set (edges x)" "contract x e = Some c" for x e c
  proof -
    from that(1,2) have "valid_edge (int (length (vertices x))) e"
      by (simp add: edges_valid_def list_all_iff)
    then have "2 \<le> length (vertices x)" by (auto simp: valid_edge_def)
    with contract_valid_props [OF _ that(2,3)] that(1) show ?thesis by auto
  qed
  from h show ?thesis
  proof (cases rule: handle_cases)
    case stop
    with assms(3) show ?thesis by simp
  next
    case inside
    then show ?thesis by simp
  next
    case (fresh ds st2)
    have "\<exists>new. all_submaps st2 = new \<and> (\<forall>x\<in>set new. ?Q x)"
    proof (cases "1 < length (vertices s)")
      case True
      have "\<forall>st'. handle_each (\<lambda>_. False) ds (?st\<lparr>polls := Suc (polls ?st)\<rparr>) = Some st' \<longrightarrow>
          (\<forall>c\<in>set ds. ?Q c) \<longrightarrow>
          (\<exists>new. all_submaps st' = all_submaps (?st\<lparr>polls := Suc (polls ?st)\<rparr>) @ new
             \<and> (\<forall>x\<in>set new. ?Q x))"
        by (rule handle_new(2)) (use closed in blast)
      moreover have "\<forall>c\<in>set ds. ?Q c"
      proof
        fix c assume "c \<in> set ds"
        from get_direct_submaps_child [OF assms(2) fresh(3) this] True
        show "?Q c" by linarith
      qed
      ultimately show ?thesis using fresh(4) [OF True] by auto
    next
      case False
      with fresh(5) show ?thesis by simp
    qed
    with fresh(6) L show ?thesis by auto
  qed
qed

lemma add_mobiuses_append:
  "add_mobiuses submaps (xs @ ys) P =
     (case add_mobiuses submaps xs P of None \<Rightarrow> None | Some P' \<Rightarrow> add_mobiuses submaps ys P')"
  by (induction xs arbitrary: P) (auto simp: Let_def)

lemma add_mobiuses_keep:
  assumes "\<forall>(i, m)\<in>set xs. i < length submaps \<and> 1 \<le> length (vertices (submaps ! i))
             \<and> length (vertices (submaps ! i)) \<le> length P
             \<and> length (vertices (submaps ! i)) - 1 \<noteq> k"
  shows "\<exists>P'. add_mobiuses submaps xs P = Some P' \<and> length P' = length P \<and> P' ! k = P ! k"
  using assms
proof (induction xs arbitrary: P)
  case Nil
  then show ?case by simp
next
  case (Cons x xs)
  obtain i m where x: "x = (i, m)" by (cases x)
  let ?n = "length (vertices (submaps ! i))"
  let ?P = "P[?n - 1 := P ! (?n - 1) + m]"
  from Cons.prems x have here: "i < length submaps" "1 \<le> ?n" "?n \<le> length P" "?n - 1 \<noteq> k"
    by auto
  have "\<forall>(i, m)\<in>set xs. i < length submaps \<and> 1 \<le> length (vertices (submaps ! i))
             \<and> length (vertices (submaps ! i)) \<le> length ?P
             \<and> length (vertices (submaps ! i)) - 1 \<noteq> k"
    using Cons.prems by auto
  from Cons.IH [OF this] obtain P' where
    "add_mobiuses submaps xs ?P = Some P'" "length P' = length ?P" "P' ! k = ?P ! k" by blast
  with here show ?case by (simp add: x Let_def)
qed

lemma enumerate_snoc: "enumerate k (xs @ [x]) = enumerate k xs @ [(k + length xs, x)]"
  by (simp add: enumerate_append_eq)

lemma get_mobius_of_column_length: "length (get_mobius_of_column M) = size_m M"
  by (simp add: get_mobius_of_column_def mobius_loop_length)

text \<open>
  Claim C8. For every simple graph on \<open>n \<ge> 1\<close> vertices the uncancelled pipeline returns:
  \<^verbatim>\<open>get_all_submaps\<close> on the submap of \<^verbatim>\<open>from_graph\<close> gives a list, and
  \<^verbatim>\<open>get_chromatic_polynomial\<close> on that list and its order matrix gives a coefficient
  array of length \<open>n\<close> whose entry at index \<open>n - 1\<close> is exactly 1, whatever the heap
  held where the matrix was allocated.
\<close>

theorem leading_coefficient:
  fixes heap :: "nat \<Rightarrow> nat \<Rightarrow> 'a::comm_ring_1"
  assumes "simple_graph n es" and "1 \<le> n" and "\<not> stop_flag st"
  shows "\<exists>L st1 P. get_all_submaps (\<lambda>_. False) (from_graph n es) st = Some (L, st1)
    \<and> get_chromatic_polynomial n L (fst (get_ordering_matrix (\<lambda>_. False) heap L st1)) = Some P
    \<and> length P = nat n \<and> P ! (nat n - 1) = 1"
proof -
  let ?s = "from_graph n es"
  have valid: "edges_valid ?s"
    using assms(1) by (simp add: simple_graph_def from_graph_edges_valid)
  have blocks: "length (vertices ?s) = nat n" by (rule from_graph_length)
  from get_all_submaps_total [OF valid assms(3)] obtain L st1 where
    run: "get_all_submaps (\<lambda>_. False) ?s st = Some (L, st1)" and ns: "\<not> stop_flag st1" by blast
  from get_all_submaps_shape [OF run valid assms(3)] obtain L1 where
    L: "L = L1 @ [?s]" and
    L1: "\<forall>x\<in>set L1. edges_valid x \<and> 1 \<le> length (vertices x) \<and> length (vertices x) < nat n"
    by (auto simp: blocks)
  define M :: "'a WYMatrix" where "M = fst (get_ordering_matrix (\<lambda>_. False) heap L st1)"
  have size: "size_m M = Suc (length L1)"
    by (simp add: M_def get_ordering_matrix_uncancelled [OF ns] L)
  define mu where "mu = get_mobius_of_column M"
  have len: "length mu = Suc (length L1)"
    by (simp add: mu_def get_mobius_of_column_length size)
  have top: "mu ! length L1 = 1"
    using mobius_recurrence [of "length L1" M] by (simp add: mu_def size)
  have "mu \<noteq> []" using len by auto
  then have "mu = butlast mu @ [last mu]" by simp
  moreover have "last mu = 1"
  proof -
    have "length mu - 1 = length L1" using len by simp
    with last_conv_nth [OF \<open>mu \<noteq> []\<close>] top show ?thesis by simp
  qed
  ultimately have mu: "mu = butlast mu @ [1]" by simp
  have enum: "enumerate 0 mu = enumerate 0 (butlast mu) @ [(length L1, 1)]"
    by (subst mu) (simp add: enumerate_snoc len)
  let ?P0 = "replicate (nat n) (0::'a)"
  have "\<forall>(i, m)\<in>set (enumerate 0 (butlast mu)). i < length L \<and> 1 \<le> length (vertices (L ! i))
             \<and> length (vertices (L ! i)) \<le> length ?P0
             \<and> length (vertices (L ! i)) - 1 \<noteq> nat n - 1"
  proof (clarify)
    fix i m assume "(i, m) \<in> set (enumerate 0 (butlast mu))"
    then have i: "i < length L1" using len by (simp add: in_set_enumerate_eq)
    then have "L ! i \<in> set L1" by (simp add: L nth_append)
    with L1 i show "i < length L \<and> 1 \<le> length (vertices (L ! i))
             \<and> length (vertices (L ! i)) \<le> length ?P0
             \<and> length (vertices (L ! i)) - 1 \<noteq> nat n - 1"
      by (auto simp: L)
  qed
  from add_mobiuses_keep [OF this] obtain P' where
    P': "add_mobiuses L (enumerate 0 (butlast mu)) ?P0 = Some P'" "length P' = nat n"
      "P' ! (nat n - 1) = 0"
    using assms(2) by auto
  have last: "L ! length L1 = ?s" by (simp add: L)
  have "add_mobiuses L (enumerate 0 mu) ?P0 = Some (P'[nat n - 1 := P' ! (nat n - 1) + 1])"
    using assms(2) P' by (simp add: enum add_mobiuses_append last blocks L Let_def)
  then have "get_chromatic_polynomial n L M = Some (P'[nat n - 1 := 1])"
    using P'(3) by (simp add: get_chromatic_polynomial_def mu_def)
  moreover have "length (P'[nat n - 1 := 1]) = nat n" "(P'[nat n - 1 := 1]) ! (nat n - 1) = 1"
    using P'(2) assms(2) by simp_all
  ultimately show ?thesis using run unfolding M_def by blast
qed

theorem leading_coefficient_witness:
  "simple_graph 3 triangle \<and> (1::int) \<le> 3 \<and> \<not> stop_flag st_init
   \<and> (\<exists>L st1 P. get_all_submaps (\<lambda>_. False) (from_graph 3 triangle) st_init = Some (L, st1)
         \<and> get_chromatic_polynomial 3 L (fst (get_ordering_matrix (\<lambda>_. False) (\<lambda>_ _. 0 :: int) L st1))
             = Some P
         \<and> length P = 3 \<and> P ! 2 = 1)"
proof -
  have h1: "simple_graph 3 triangle" by code_simp
  have h2: "(1::int) \<le> 3" by simp
  have h3: "\<not> stop_flag st_init" by code_simp
  from leading_coefficient [OF h1 h2 h3, of "\<lambda>_ _. 0 :: int"] h1 h3 show ?thesis by simp
qed

section \<open>What the entries of the order matrix mean\<close>

lemma distinct_concat_disjoint: "distinct (concat vs) \<Longrightarrow> disjoint_blocks vs"
  by (induction vs) (auto simp: list_all_iff)

lemma one_superset:
  assumes "disjoint_blocks vs" and "a \<noteq> []"
  shows "length (filter (\<lambda>b. set a \<subseteq> set b) vs) = 1 \<longleftrightarrow> (\<exists>p<length vs. set a \<subseteq> set (vs ! p))"
proof
  assume "length (filter (\<lambda>b. set a \<subseteq> set b) vs) = 1"
  then have "filter (\<lambda>b. set a \<subseteq> set b) vs \<noteq> []" by auto
  then obtain b where "b \<in> set vs" "set a \<subseteq> set b"
    by (auto simp: filter_empty_conv)
  then show "\<exists>p<length vs. set a \<subseteq> set (vs ! p)" by (auto simp: in_set_conv_nth)
next
  assume "\<exists>p<length vs. set a \<subseteq> set (vs ! p)"
  then obtain p where p: "p < length vs" "set a \<subseteq> set (vs ! p)" by blast
  from assms(2) have hd: "hd a \<in> set a" by simp
  have "q = p" if "q < length vs" "set a \<subseteq> set (vs ! q)" for q
  proof (rule ccontr)
    assume "q \<noteq> p"
    then consider "q < p" | "p < q" by linarith
    then have "set (vs ! q) \<inter> set (vs ! p) = {}"
    proof cases
      case 1
      from disjoint_blocks_nth [OF assms(1) 1 p(1)] show ?thesis .
    next
      case 2
      from disjoint_blocks_nth [OF assms(1) 2 that(1)] show ?thesis by (simp add: Int_commute)
    qed
    moreover have "hd a \<in> set (vs ! q)" "hd a \<in> set (vs ! p)" using hd that(2) p(2) by auto
    ultimately show False by auto
  qed
  with p have "{i. i < length vs \<and> set a \<subseteq> set (vs ! i)} = {p}" by blast
  then show "length (filter (\<lambda>b. set a \<subseteq> set b) vs) = 1"
    by (simp add: length_filter_conv_card)
qed

lemma submap_ge_coarsens:
  assumes "distinct (concat (vertices B))" and "[] \<notin> set (vertices A)"
    and "set (concat (vertices A)) \<subseteq> set (concat (vertices B))"
  shows "submap_ge A B \<longleftrightarrow> coarsens B A"
proof -
  have dis: "disjoint_blocks (vertices B)" using assms(1) by (rule distinct_concat_disjoint)
  have found: "\<exists>p<length (vertices B). n \<in> set (vertices B ! p) \<and> find_node_idx B n = int p"
    if "n \<in> set (concat (vertices B))" for n
  proof -
    from that obtain b where b: "b \<in> set (vertices B)" "n \<in> set b" by auto
    from b(1) obtain p where p: "p < length (vertices B)" "vertices B ! p = b"
      by (auto simp: in_set_conv_nth)
    with b(2) have "n \<in> set (vertices B ! p)" by simp
    with find_node_idx_disjoint [OF dis p(1) this] p(1) show ?thesis by blast
  qed
  have block: "(\<forall>n\<in>set a. \<forall>n'\<in>set a. find_node_idx B n = find_node_idx B n')
      \<longleftrightarrow> (\<exists>p<length (vertices B). set a \<subseteq> set (vertices B ! p))"
    if a: "a \<in> set (vertices A)" for a
  proof
    assume same: "\<forall>n\<in>set a. \<forall>n'\<in>set a. find_node_idx B n = find_node_idx B n'"
    from a assms(2) have "a \<noteq> []" by auto
    then have hd: "hd a \<in> set a" by simp
    have cover: "set a \<subseteq> set (concat (vertices B))" using a assms(3) by auto
    from found [of "hd a"] hd cover obtain p where
      p: "p < length (vertices B)" "find_node_idx B (hd a) = int p" by blast
    have "n \<in> set (vertices B ! p)" if "n \<in> set a" for n
    proof -
      from found [of n] that cover obtain q where
        q: "q < length (vertices B)" "n \<in> set (vertices B ! q)" "find_node_idx B n = int q" by blast
      from same that hd have "find_node_idx B n = find_node_idx B (hd a)" by blast
      with p(2) q(3) have "q = p" by simp
      with q(2) show ?thesis by simp
    qed
    with p(1) show "\<exists>p<length (vertices B). set a \<subseteq> set (vertices B ! p)" by blast
  next
    assume "\<exists>p<length (vertices B). set a \<subseteq> set (vertices B ! p)"
    then obtain p where p: "p < length (vertices B)" "set a \<subseteq> set (vertices B ! p)" by blast
    have "find_node_idx B n = int p" if "n \<in> set a" for n
      using find_node_idx_disjoint [OF dis p(1)] p(2) that by blast
    then show "\<forall>n\<in>set a. \<forall>n'\<in>set a. find_node_idx B n = find_node_idx B n'" by simp
  qed
  have one: "length (filter (\<lambda>b. set a \<subseteq> set b) (vertices B)) = 1
      \<longleftrightarrow> (\<exists>p<length (vertices B). set a \<subseteq> set (vertices B ! p))"
    if "a \<in> set (vertices A)" for a
  proof -
    from that assms(2) have "a \<noteq> []" by auto
    with one_superset [OF dis] show ?thesis by simp
  qed
  have "coarsens B A
      \<longleftrightarrow> (\<forall>a\<in>set (vertices A). \<exists>p<length (vertices B). set a \<subseteq> set (vertices B ! p))"
    unfolding coarsens_def list_all_iff by (rule ball_cong [OF refl]) (rule one)
  also have "\<dots> \<longleftrightarrow> (\<forall>a\<in>set (vertices A). \<forall>n\<in>set a. \<forall>n'\<in>set a.
      find_node_idx B n = find_node_idx B n')"
    by (rule ball_cong [OF refl]) (rule block [symmetric])
  finally show ?thesis unfolding submap_ge_iff by simp
qed

lemma sum_list_bump:
  fixes g :: "nat \<Rightarrow> 'b::comm_monoid_add"
  assumes "distinct ks" and "a \<in> set ks"
  shows "(\<Sum>k\<leftarrow>ks. if k = a then g k + d else g k) = (\<Sum>k\<leftarrow>ks. g k) + d"
  using assms
proof (induction ks)
  case Nil
  then show ?case by simp
next
  case (Cons k ks)
  show ?case
  proof (cases "k = a")
    case True
    with Cons.prems have "a \<notin> set ks" by simp
    then have "(\<Sum>k\<leftarrow>ks. if k = a then g k + d else g k) = (\<Sum>k\<leftarrow>ks. g k)"
      by (intro arg_cong [where f = sum_list] map_cong) auto
    with True show ?thesis by (simp add: ac_simps)
  next
    case False
    with Cons show ?thesis by (simp add: ac_simps)
  qed
qed

lemma upt_split: "b < n \<Longrightarrow> [0..<n] = [0..<b] @ b # [Suc b..<n]"
  by (metis le_add1 less_imp_add_positive upt_add_eq_append upt_conv_Cons plus_nat.add_0 less_or_eq_imp_le)

lemma contract_labels:
  assumes "edges_valid s" and "e \<in> set (edges s)" and "contract s e = Some c"
  shows "mset (concat (vertices c)) = mset (concat (vertices s))"
    and "[] \<notin> set (vertices s) \<Longrightarrow> [] \<notin> set (vertices c)"
proof -
  let ?vs = "vertices s"
  let ?n = "length ?vs"
  define a where "a = nat (lo e)"
  define b where "b = nat (hi e)"
  define ks where "ks = [0..<b] @ [Suc b..<?n]"
  define f where "f = (\<lambda>k. if k = a then sort (?vs ! k @ ?vs ! b) else ?vs ! k)"
  from assms(1,2) have "valid_edge (int ?n) e" by (simp add: edges_valid_def list_all_iff)
  then have ab: "a < b" "b < ?n" and lo: "lo e = int a"
    by (auto simp: valid_edge_def lo_def hi_def a_def b_def)
  have "(\<lambda>k. if int k = lo e then sort (?vs ! k @ ?vs ! nat (hi e)) else ?vs ! k) = f"
    by (auto simp: f_def lo b_def)
  with contract_valid [OF assms(1,2)] assms(3) have c: "vertices c = map f ks"
    by (auto simp: ks_def b_def)
  have dks: "distinct ks" "a \<in> set ks" "b \<notin> set ks" "set ks \<subseteq> {0..<?n}"
    using ab by (auto simp: ks_def)
  have "mset (concat (map f ks)) = (\<Sum>k\<leftarrow>ks. mset (f k))"
    by (simp add: mset_concat comp_def)
  also have "\<dots> = (\<Sum>k\<leftarrow>ks. if k = a then mset (?vs ! k) + mset (?vs ! b) else mset (?vs ! k))"
    by (intro arg_cong [where f = sum_list] map_cong) (auto simp: f_def)
  also have "\<dots> = (\<Sum>k\<leftarrow>ks. mset (?vs ! k)) + mset (?vs ! b)"
    by (rule sum_list_bump [OF dks(1,2)])
  also have "\<dots> = (\<Sum>k\<leftarrow>[0..<?n]. mset (?vs ! k))"
    by (simp add: upt_split [OF ab(2)] ks_def ac_simps)
  also have "\<dots> = mset (concat ?vs)"
  proof -
    have "map (\<lambda>k. mset (?vs ! k)) [0..<?n] = map mset ?vs"
      by (simp add: map_equality_iff)
    then show ?thesis by (simp add: mset_concat)
  qed
  finally show "mset (concat (vertices c)) = mset (concat (vertices s))" by (simp add: c)
  assume ne: "[] \<notin> set ?vs"
  have "f k \<noteq> []" if "k \<in> set ks" for k
  proof -
    from that dks(4) have "k < ?n" by auto
    with ne have "?vs ! k \<noteq> []" by (metis nth_mem)
    then show ?thesis
      by (auto simp: f_def) (metis append_is_Nil_conv length_0_conv length_sort)
  qed
  then show "[] \<notin> set (vertices c)" unfolding c by (metis imageE list.set_map)
qed

text \<open>Every submap of the list is a partition of the vertices of the input graph.\<close>

lemma get_all_submaps_partitions:
  assumes "get_all_submaps gc s st = Some (L, st')" and "edges_valid s" and "[] \<notin> set (vertices s)"
    and "x \<in> set L"
  shows "[] \<notin> set (vertices x) \<and> mset (concat (vertices x)) = mset (concat (vertices s))"
proof -
  let ?Q = "\<lambda>x. edges_valid x \<and> [] \<notin> set (vertices x)
                \<and> mset (concat (vertices x)) = mset (concat (vertices s))"
  from assms(1) obtain st1 where h: "handle gc s (st\<lparr>all_submaps := []\<rparr>) = Some st1"
    and L: "L = all_submaps st1"
    by (auto simp: get_all_submaps_def split: option.splits)
  have "\<forall>st'. handle gc s (st\<lparr>all_submaps := []\<rparr>) = Some st' \<longrightarrow> ?Q s \<longrightarrow>
      (\<exists>new. all_submaps st' = all_submaps (st\<lparr>all_submaps := []\<rparr>) @ new \<and> (\<forall>x\<in>set new. ?Q x))"
  proof (rule handle_new(1))
    fix x e c
    assume "?Q x" "e \<in> set (edges x)" "contract x e = Some c"
    with contract_labels [of x e c] contract_valid_props(1) [of x e c] show "?Q c" by simp
  qed
  with h assms(2,3) L assms(4) show ?thesis by auto
qed

lemma from_graph_partition:
  "[] \<notin> set (vertices (from_graph n es)) \<and> distinct (concat (vertices (from_graph n es)))"
proof -
  have "concat (map (\<lambda>i. [i]) xs) = xs" for xs :: "int list"
    by (induction xs) simp_all
  then show ?thesis by (auto simp: from_graph_def)
qed

text \<open>
  Claim C1, amended. For the order matrix that an uncancelled \<^verbatim>\<open>get_ordering_matrix\<close>
  builds over the list enumerated from a simple graph, and for every pair of indices
  \<open>i \<le> j\<close>, entry \<open>(i, j)\<close> is 1 if and only if submap \<open>i\<close> is a coarsening of submap
  \<open>j\<close>: every block of submap \<open>j\<close> is a subset of exactly one block of submap \<open>i\<close>.
  The coarser submap has the smaller index, the input graph, the finest, is last.
\<close>

theorem order_matrix_entries:
  fixes heap :: "nat \<Rightarrow> nat \<Rightarrow> 'a::zero_neq_one"
  assumes "simple_graph n es"
    and "get_all_submaps (\<lambda>_. False) (from_graph n es) st = Some (L, st1)"
    and "i \<le> j" and "j < length L"
  shows "(entries (fst (get_ordering_matrix (\<lambda>_. False) heap L st1)) i j = 1)
           = coarsens (L ! i) (L ! j)"
proof -
  let ?s = "from_graph n es"
  have valid: "edges_valid ?s"
    using assms(1) by (simp add: simple_graph_def from_graph_edges_valid)
  have ns: "\<not> stop_flag st1"
    using assms(2) by (auto simp: get_all_submaps_def split: option.splits)
  have part: "[] \<notin> set (vertices x) \<and> mset (concat (vertices x)) = mset (concat (vertices ?s))"
    if "x \<in> set L" for x
    using get_all_submaps_partitions [OF assms(2) valid _ that] from_graph_partition by blast
  have i: "L ! i \<in> set L" and j: "L ! j \<in> set L" using assms(3,4) by simp_all
  have "distinct (concat (vertices (L ! i)))"
    using part [OF i] from_graph_partition [of n es] by (metis mset_eq_imp_distinct_iff)
  moreover have "[] \<notin> set (vertices (L ! j))" using part [OF j] by simp
  moreover have "set (concat (vertices (L ! j))) \<subseteq> set (concat (vertices (L ! i)))"
    using part [OF i] part [OF j] by (metis mset_eq_setD order_refl)
  ultimately have "submap_ge (L ! j) (L ! i) \<longleftrightarrow> coarsens (L ! i) (L ! j)"
    by (rule submap_ge_coarsens)
  then show ?thesis
    using assms(3,4) by (simp add: get_ordering_matrix_uncancelled [OF ns])
qed

theorem order_matrix_entries_witness:
  "simple_graph 2 single_edge
   \<and> get_all_submaps (\<lambda>_. False) (from_graph 2 single_edge) st_init
       = Some (two_blocks, st_init\<lparr>all_submaps := two_blocks, polls := 2\<rparr>)
   \<and> (0::nat) \<le> 1 \<and> 1 < length two_blocks
   \<and> entries (fst (get_ordering_matrix (\<lambda>_. False) (\<lambda>_ _. 0 :: int) two_blocks
                      (st_init\<lparr>all_submaps := two_blocks, polls := 2\<rparr>))) 0 1 = 1
   \<and> coarsens (two_blocks ! 0) (two_blocks ! 1)"
proof -
  have h1: "simple_graph 2 single_edge" by code_simp
  have h2: "get_all_submaps (\<lambda>_. False) (from_graph 2 single_edge) st_init
       = Some (two_blocks, st_init\<lparr>all_submaps := two_blocks, polls := 2\<rparr>)" by code_simp
  have h3: "(0::nat) \<le> 1" by simp
  have h4: "1 < length two_blocks" by code_simp
  have h5: "coarsens (two_blocks ! 0) (two_blocks ! 1)" by code_simp
  from order_matrix_entries [OF h1 h2 h3 h4, of "\<lambda>_ _. 0 :: int"] h1 h2 h4 h5
  show ?thesis by simp
qed

text \<open>
  Claim C1 as stated, with the direction of the spec, fails: for the single edge, entry
  \<open>(0, 1)\<close> is 1, but submap 1 (the blocks \<open>[0]\<close> and \<open>[1]\<close>) is not a coarsening of
  submap 0 (the block \<open>[0, 1]\<close>), whose only block is a subset of no block of submap 1.
\<close>

theorem order_matrix_direction_counterexample:
  "get_all_submaps (\<lambda>_. False) (from_graph 2 single_edge) st_init
       = Some (two_blocks, st_init\<lparr>all_submaps := two_blocks, polls := 2\<rparr>)
   \<and> entries (fst (get_ordering_matrix (\<lambda>_. False) (\<lambda>_ _. 0 :: int) two_blocks
                      (st_init\<lparr>all_submaps := two_blocks, polls := 2\<rparr>))) 0 1 = 1
   \<and> \<not> coarsens (two_blocks ! 1) (two_blocks ! 0)"
  by code_simp

section \<open>Cancellation and publication\<close>

text \<open>
  Claim C2 says that a cycle in which \<^verbatim>\<open>graph_changed\<close> becomes set while the pipeline
  runs computes no coefficient array and publishes nothing. \<^verbatim>\<open>calculate\<close> does not
  test for cancellation after \<^verbatim>\<open>get_all_submaps\<close> or \<^verbatim>\<open>get_ordering_matrix\<close>: it
  always goes on to \<^verbatim>\<open>get_chromatic_polynomial\<close> and \<^verbatim>\<open>set_output_to_polynomial\<close>.
  For the graph with the single edge (0,1), whose polynomial is \<open>[-1, 1]\<close>:
  when the signal is set from the second reading on, the enumeration is cut short, the
  list holds the input graph alone and \<open>[0, 1]\<close> is published; when it is set from the
  third reading on, \<^verbatim>\<open>get_ordering_matrix\<close> returns before writing any row and the
  published coefficient is read from the unwritten heap entry \<open>heap 0 1\<close>.
\<close>

theorem cancelled_cycle_publishes:
  "map_option fst (calculate_cycle (\<lambda>k. 1 \<le> k) heap 2 single_edge (Polynomial old, st_init))
     = Some (Polynomial [0, 1 :: int])
   \<and> map_option fst (calculate_cycle (\<lambda>k. 2 \<le> k) heap 2 single_edge (Polynomial old, st_init))
     = Some (Polynomial [- heap 0 1, 1 :: int])
   \<and> map_option fst (calculate_cycle (\<lambda>_. False) heap 2 single_edge (Polynomial old, st_init))
     = Some (Polynomial [- 1, 1 :: int])"
proof (intro conjI)
  show "map_option fst (calculate_cycle (\<lambda>k. 1 \<le> k) heap 2 single_edge (Polynomial old, st_init))
     = Some (Polynomial [0, 1 :: int])"
    by code_simp
  show "map_option fst (calculate_cycle (\<lambda>k. 2 \<le> k) heap 2 single_edge (Polynomial old, st_init))
     = Some (Polynomial [- heap 0 1, 1 :: int])"
    by code_simp simp
  show "map_option fst (calculate_cycle (\<lambda>_. False) heap 2 single_edge (Polynomial old, st_init))
     = Some (Polynomial [- 1, 1 :: int])"
    by code_simp
qed

end
